theory Spec2Isabelle
  imports Main "HOL-Library.Word"
begin

section \<open>portfwd.c: a single-threaded TCP port forwarder\<close>

text \<open>
  A shallow embedding of \<^verbatim>\<open>src/portfwd.c\<close>. The globals of the C file are one record
  that every function takes and returns. The arrays \<^verbatim>\<open>conn_in\<close>, \<^verbatim>\<open>conn_out\<close>,
  \<^verbatim>\<open>backlog_*_size\<close>, \<^verbatim>\<open>backlog_*_pos\<close> and \<^verbatim>\<open>backlog_*\<close> are lists of
  \<^verbatim>\<open>max_connections\<close> entries; the C code only indexes them with \<^verbatim>\<open>0 <= i < max_connections\<close>.
  A socket is an \<^verbatim>\<open>int\<close> (the POSIX branch of the file), an \<^verbatim>\<open>fd_set\<close> is the set of
  the descriptors whose bit is set, of which it has \<^verbatim>\<open>FD_SETSIZE\<close>.
  \<^verbatim>\<open>ERR(...)\<close> prints and calls \<^verbatim>\<open>exit(EXIT_FAILURE)\<close>: it is the \<open>Inl\<close> branch
  of a sum. What the operating system answers (the return values of \<^verbatim>\<open>accept\<close>,
  \<^verbatim>\<open>socket\<close>, \<^verbatim>\<open>connect\<close>, \<^verbatim>\<open>recv\<close>, \<^verbatim>\<open>send\<close>, \<^verbatim>\<open>select\<close>) is a parameter.
  The \<^verbatim>\<open>printf\<close> calls under \<^verbatim>\<open>verbose\<close> change no state and are left out.
\<close>

subsection \<open>Constants and types\<close>

text \<open>
  An \<^verbatim>\<open>fd_set\<close> is read as the set of the descriptors whose bit is set. It has bits
  for the descriptors \<^verbatim>\<open>0 .. FD_SETSIZE - 1\<close> and no others; the program reaches it
  through \<^verbatim>\<open>FD_ZERO\<close> (the empty set), \<^verbatim>\<open>FD_SET\<close>, \<^verbatim>\<open>FD_CLR\<close>, \<^verbatim>\<open>FD_ISSET\<close> and
  \<^verbatim>\<open>select\<close>, and the three macros are defined below on those descriptors only.
\<close>

type_synonym byte = "8 word"
type_synonym SOCKET = int
type_synonym fd_set = "int set"
type_synonym buffer = "nat \<Rightarrow> byte"

definition INVALID_SOCKET :: SOCKET where
  "INVALID_SOCKET = - 1"

definition BACKLOG_SIZE :: int where
  "BACKLOG_SIZE = 65530"

datatype direction = IN | OUT

text \<open>
  The fatal exits, one constructor for each \<^verbatim>\<open>ERR\<close> call the model reaches. The last
  constructor is not an exit: \<open>Undefined_fd fd\<close> says that \<^verbatim>\<open>FD_SET\<close>, \<^verbatim>\<open>FD_CLR\<close> or
  \<^verbatim>\<open>FD_ISSET\<close> was used with the descriptor \<open>fd\<close> that no \<^verbatim>\<open>fd_set\<close> has a bit for,
  from where on the behaviour of the C program is undefined.
\<close>

datatype fatal =
    Err_enqueue
  | Err_outgoing_socket
  | Err_connect
  | Err_backlog nat
  | Err_inconsistent nat
  | Err_select1
  | Err_select_timeout
  | Err_select2
  | Undefined_fd SOCKET

text \<open>
  The calls the program makes, recorded in the order it makes them. The field \<open>trace\<close>
  is not a variable of the C file: it is the record of which sockets were closed and which
  of \<^verbatim>\<open>flush_backlog\<close> and \<^verbatim>\<open>bounce\<close> ran, for which slot and direction.
\<close>

datatype event =
    Ev_closesocket SOCKET
  | Ev_flush_backlog nat direction
  | Ev_bounce nat direction

record globals =
  conn_in :: "SOCKET list"
  conn_out :: "SOCKET list"
  sockin :: SOCKET
  max_connections :: int
  active_connections :: int
  backlog_in_size :: "int list"
  backlog_out_size :: "int list"
  backlog_in_pos :: "int list"
  backlog_out_pos :: "int list"
  backlog_in :: "buffer list"
  backlog_out :: "buffer list"
  trace :: "event list"

definition bind_err :: "'e + 'a \<Rightarrow> ('a \<Rightarrow> 'e + 'b) \<Rightarrow> 'e + 'b" where
  "bind_err m f = (case m of Inl e \<Rightarrow> Inl e | Inr v \<Rightarrow> f v)"

text \<open>
  \<^verbatim>\<open>(dir==IN)?backlog_in:backlog_out\<close> and its siblings: the array a direction selects,
  to read and to write through.
\<close>

definition conn_of :: "direction \<Rightarrow> globals \<Rightarrow> SOCKET list" where
  "conn_of dir g = (if dir = IN then conn_in g else conn_out g)"

definition backlog_of :: "direction \<Rightarrow> globals \<Rightarrow> buffer list" where
  "backlog_of dir g = (if dir = IN then backlog_in g else backlog_out g)"

definition backlog_size_of :: "direction \<Rightarrow> globals \<Rightarrow> int list" where
  "backlog_size_of dir g = (if dir = IN then backlog_in_size g else backlog_out_size g)"

definition backlog_pos_of :: "direction \<Rightarrow> globals \<Rightarrow> int list" where
  "backlog_pos_of dir g = (if dir = IN then backlog_in_pos g else backlog_out_pos g)"

definition set_backlog :: "direction \<Rightarrow> buffer list \<Rightarrow> globals \<Rightarrow> globals" where
  "set_backlog dir v g = (if dir = IN then g\<lparr>backlog_in := v\<rparr> else g\<lparr>backlog_out := v\<rparr>)"

definition set_backlog_size :: "direction \<Rightarrow> int list \<Rightarrow> globals \<Rightarrow> globals" where
  "set_backlog_size dir v g =
     (if dir = IN then g\<lparr>backlog_in_size := v\<rparr> else g\<lparr>backlog_out_size := v\<rparr>)"

definition set_backlog_pos :: "direction \<Rightarrow> int list \<Rightarrow> globals \<Rightarrow> globals" where
  "set_backlog_pos dir v g =
     (if dir = IN then g\<lparr>backlog_in_pos := v\<rparr> else g\<lparr>backlog_out_pos := v\<rparr>)"

text \<open>\<^verbatim>\<open>memcpy(dst + off, src, n)\<close> on a region read as a function of the byte index.\<close>

definition memcpy :: "buffer \<Rightarrow> nat \<Rightarrow> buffer \<Rightarrow> nat \<Rightarrow> buffer" where
  "memcpy dst off src n = (\<lambda>k. if off \<le> k \<and> k < off + n then src (k - off) else dst k)"

text \<open>The unsent bytes a backlog holds: \<^verbatim>\<open>backlog[n][pos .. pos+size)\<close>.\<close>

definition queued :: "direction \<Rightarrow> nat \<Rightarrow> globals \<Rightarrow> byte list" where
  "queued dir n g =
     map (backlog_of dir g ! n)
       [nat (backlog_pos_of dir g ! n) ..< nat (backlog_pos_of dir g ! n + backlog_size_of dir g ! n)]"

subsection \<open>accept_incoming\<close>

text \<open>
  The enqueue loop \<^verbatim>\<open>for (i=0; (i<max_connections) && (curr<0); i++)\<close>: the first slot
  whose two handles are both \<^verbatim>\<open>INVALID_SOCKET\<close>.
\<close>

definition free_slot :: "globals \<Rightarrow> nat option" where
  "free_slot g =
     find (\<lambda>i. conn_in g ! i = INVALID_SOCKET \<and> conn_out g ! i = INVALID_SOCKET)
       [0 ..< nat (max_connections g)]"

text \<open>
  \<open>incoming\<close> is what \<^verbatim>\<open>accept\<close> returned, \<open>outgoing\<close> what \<^verbatim>\<open>socket\<close> returned and
  \<open>connected\<close> what \<^verbatim>\<open>connect\<close> returned.
\<close>

definition accept_incoming :: "SOCKET \<Rightarrow> SOCKET \<Rightarrow> int \<Rightarrow> globals \<Rightarrow> fatal + globals" where
  "accept_incoming incoming outgoing connected g =
     (if incoming < 0 then Inr g
      else
        let g1 = g\<lparr>active_connections := active_connections g + 1\<rparr> in
        if active_connections g1 > max_connections g1 then
          Inr (g1\<lparr>trace := trace g1 @ [Ev_closesocket incoming],
                  active_connections := active_connections g1 - 1\<rparr>)
        else
          (case free_slot g1 of
             None \<Rightarrow> Inl Err_enqueue
           | Some cur \<Rightarrow>
               if outgoing < 0 then Inl Err_outgoing_socket
               else if connected < 0 then Inl Err_connect
               else Inr (g1\<lparr>conn_in := (conn_in g1)[cur := incoming],
                            conn_out := (conn_out g1)[cur := outgoing]\<rparr>)))"

subsection \<open>kill_connection\<close>

definition kill_connection :: "nat \<Rightarrow> globals \<Rightarrow> globals" where
  "kill_connection n g =
     g\<lparr>trace := trace g @ [Ev_closesocket (conn_in g ! n), Ev_closesocket (conn_out g ! n)],
       backlog_in_size := (backlog_in_size g)[n := 0],
       backlog_out_size := (backlog_out_size g)[n := 0],
       backlog_in_pos := (backlog_in_pos g)[n := 0],
       backlog_out_pos := (backlog_out_pos g)[n := 0],
       conn_in := (conn_in g)[n := INVALID_SOCKET],
       conn_out := (conn_out g)[n := INVALID_SOCKET],
       active_connections := active_connections g - 1\<rparr>"

subsection \<open>add_backlog\<close>

text \<open>
  \<open>buf\<close> is the memory at the pointer the caller passes, \<open>bufsize\<close> its \<^verbatim>\<open>int\<close> length
  (the only caller passes \<^verbatim>\<open>recvd-sent > 0\<close>, so the cast to \<^verbatim>\<open>size_t\<close> keeps it).
\<close>

definition add_backlog :: "nat \<Rightarrow> direction \<Rightarrow> buffer \<Rightarrow> int \<Rightarrow> globals \<Rightarrow> fatal + globals" where
  "add_backlog n dir buf bufsize g =
     (let pos = backlog_pos_of dir g ! n; size = backlog_size_of dir g ! n in
      if pos + size + bufsize > BACKLOG_SIZE then Inl (Err_backlog n)
      else
        Inr (set_backlog_size dir ((backlog_size_of dir g)[n := size + bufsize])
              (set_backlog dir
                 ((backlog_of dir g)[n := memcpy (backlog_of dir g ! n) (nat (pos + size)) buf (nat bufsize)])
                 g)))"

subsection \<open>flush_backlog\<close>

text \<open>
  \<open>sent\<close> is what \<^verbatim>\<open>send(conn[n], backlog[n] + backlog_pos[n], backlog_size[n], MSG_DONTWAIT)\<close>
  returned.
\<close>

definition flush_backlog :: "nat \<Rightarrow> direction \<Rightarrow> int \<Rightarrow> globals \<Rightarrow> globals" where
  "flush_backlog n dir sent g =
     (let g0 = g\<lparr>trace := trace g @ [Ev_flush_backlog n dir]\<rparr> in
      if sent < 1 then kill_connection n g0
      else
        let size' = backlog_size_of dir g0 ! n - sent;
            g1 = set_backlog_size dir ((backlog_size_of dir g0)[n := size']) g0
        in if size' = 0 then set_backlog_pos dir ((backlog_pos_of dir g1)[n := 0]) g1
           else set_backlog_pos dir ((backlog_pos_of dir g1)[n := backlog_pos_of dir g1 ! n + sent]) g1)"

subsection \<open>bounce\<close>

text \<open>
  \<open>recvd\<close> is what \<^verbatim>\<open>recv(src, buf, BACKLOG_SIZE, 0)\<close> returned and \<open>buf\<close> the scratch
  buffer after it; \<open>sent\<close> is what \<^verbatim>\<open>send(dest, buf, recvd, MSG_DONTWAIT)\<close> returned.
  \<^verbatim>\<open>buf+sent\<close> is the buffer read from index \<open>sent\<close> on.
\<close>

definition bounce ::
  "SOCKET \<Rightarrow> SOCKET \<Rightarrow> nat \<Rightarrow> direction \<Rightarrow> int \<Rightarrow> buffer \<Rightarrow> int \<Rightarrow> globals \<Rightarrow> fatal + globals" where
  "bounce src dest n dir recvd buf sent g =
     (let g0 = g\<lparr>trace := trace g @ [Ev_bounce n dir]\<rparr> in
      if recvd < 1 then Inr (kill_connection n g0)
      else if sent < 1 then Inr (kill_connection n g0)
      else if sent < recvd then add_backlog n dir (\<lambda>k. buf (k + nat sent)) (recvd - sent) g0
      else Inr g0)"

subsection \<open>valid_socket\<close>

definition valid_socket :: "nat \<Rightarrow> globals \<Rightarrow> fatal + bool" where
  "valid_socket i g =
     (if conn_in g ! i \<noteq> INVALID_SOCKET \<and> conn_out g ! i \<noteq> INVALID_SOCKET then Inr True
      else if (conn_in g ! i = INVALID_SOCKET \<and> conn_out g ! i \<noteq> INVALID_SOCKET) \<or>
              (conn_in g ! i \<noteq> INVALID_SOCKET \<and> conn_out g ! i = INVALID_SOCKET)
      then Inl (Err_inconsistent i)
      else Inr False)"

subsection \<open>fd_set\<close>

text \<open>
  What the platform gives during one call of \<^verbatim>\<open>poll_conn\<close>. \<^verbatim>\<open>FD_SETSIZE\<close> is the
  number of descriptors an \<^verbatim>\<open>fd_set\<close> holds; \<^verbatim>\<open><sys/select.h>\<close> fixes it, not
  \<^verbatim>\<open>portfwd.c\<close>, so it is a parameter. A \<^verbatim>\<open>select\<close> answers with its return value and
  the descriptors that are ready; it leaves set, in each \<^verbatim>\<open>fd_set\<close>, the descriptors
  that were set and are ready. A \<^verbatim>\<open>send\<close> or \<^verbatim>\<open>recv\<close> is made at most once for a slot
  and direction by \<^verbatim>\<open>flush_backlog\<close> and at most once by \<^verbatim>\<open>bounce\<close>; its return value
  depends on the length asked for.
\<close>

record syscalls =
  FD_SETSIZE :: int
  select1_ret :: int
  select1_readable :: fd_set
  select1_writable :: fd_set
  select2_ret :: int
  select2_readable :: fd_set
  select2_writable :: fd_set
  accept_ret :: SOCKET
  socket_ret :: SOCKET
  connect_ret :: int
  flush_send_ret :: "nat \<Rightarrow> direction \<Rightarrow> int \<Rightarrow> int"
  bounce_recv_ret :: "nat \<Rightarrow> direction \<Rightarrow> int \<Rightarrow> int"
  bounce_recv_buf :: "nat \<Rightarrow> direction \<Rightarrow> buffer"
  bounce_send_ret :: "nat \<Rightarrow> direction \<Rightarrow> int \<Rightarrow> int"

text \<open>
  \<^verbatim>\<open>FD_SET\<close>, \<^verbatim>\<open>FD_CLR\<close> and \<^verbatim>\<open>FD_ISSET\<close> index the bit array of the \<^verbatim>\<open>fd_set\<close> with
  the descriptor. \<^verbatim>\<open>portfwd.c\<close> never compares a descriptor with \<^verbatim>\<open>FD_SETSIZE\<close>
  (\<^verbatim>\<open>-max\<close> admits up to 65535 connections, two descriptors each). With a descriptor
  outside \<^verbatim>\<open>0 .. FD_SETSIZE - 1\<close> the macro reads or writes outside the \<^verbatim>\<open>fd_set\<close>,
  which C leaves undefined: the model stops there with \<open>Undefined_fd\<close> and says nothing
  about what the program does next.
\<close>

definition fd_in_range :: "syscalls \<Rightarrow> SOCKET \<Rightarrow> bool" where
  "fd_in_range sys fd \<longleftrightarrow> 0 \<le> fd \<and> fd < FD_SETSIZE sys"

definition FD_SET :: "syscalls \<Rightarrow> SOCKET \<Rightarrow> fd_set \<Rightarrow> fatal + fd_set" where
  "FD_SET sys fd s = (if fd_in_range sys fd then Inr (insert fd s) else Inl (Undefined_fd fd))"

definition FD_CLR :: "syscalls \<Rightarrow> SOCKET \<Rightarrow> fd_set \<Rightarrow> fatal + fd_set" where
  "FD_CLR sys fd s = (if fd_in_range sys fd then Inr (s - {fd}) else Inl (Undefined_fd fd))"

definition FD_ISSET :: "syscalls \<Rightarrow> SOCKET \<Rightarrow> fd_set \<Rightarrow> fatal + bool" where
  "FD_ISSET sys fd s = (if fd_in_range sys fd then Inr (fd \<in> s) else Inl (Undefined_fd fd))"

subsection \<open>poll_conn\<close>

text \<open>
  Stage 1, the loop of lines 395-404: both sockets of every valid slot go into
  \<^verbatim>\<open>w1_fd\<close> and \<^verbatim>\<open>r1_fd\<close>. The accumulator is \<open>(r1_fd, w1_fd, max_fd)\<close>.
\<close>

fun stage1_loop :: "syscalls \<Rightarrow> globals \<Rightarrow> nat list \<Rightarrow> fd_set \<times> fd_set \<times> SOCKET \<Rightarrow> fatal + fd_set \<times> fd_set \<times> SOCKET" where
  "stage1_loop sys g [] acc = Inr acc"
| "stage1_loop sys g (i # is) (r1, w1, max_fd) =
     bind_err (valid_socket i g) (\<lambda>v.
       if v then
         bind_err (FD_SET sys (conn_in g ! i) w1) (\<lambda>w1a.
         bind_err (FD_SET sys (conn_in g ! i) r1) (\<lambda>r1a.
         bind_err (FD_SET sys (conn_out g ! i) w1a) (\<lambda>w1b.
         bind_err (FD_SET sys (conn_out g ! i) r1a) (\<lambda>r1b.
           stage1_loop sys g is
             (r1b, w1b, max max_fd (max (conn_in g ! i) (conn_out g ! i)))))))
       else stage1_loop sys g is (r1, w1, max_fd))"

text \<open>
  The first \<^verbatim>\<open>select\<close> (zero timeout) is only made \<^verbatim>\<open>if (max_fd)\<close>; otherwise the sets
  stay as the loop built them.
\<close>

definition stage1 :: "syscalls \<Rightarrow> globals \<Rightarrow> fatal + fd_set \<times> fd_set" where
  "stage1 sys g =
     bind_err (stage1_loop sys g [0 ..< nat (max_connections g)] ({}, {}, 0)) (\<lambda>acc.
       case acc of (r1, w1, max_fd) \<Rightarrow>
         if max_fd \<noteq> 0 then
           (if select1_ret sys = - 1 then Inl Err_select1
            else Inr (r1 \<inter> select1_readable sys, w1 \<inter> select1_writable sys))
         else Inr (r1, w1))"

text \<open>
  The sets of stage 2 before the loop, lines 425-434: \<^verbatim>\<open>sockin\<close> is polled for reading
  if another connection can be accepted.
\<close>

definition stage2_init :: "syscalls \<Rightarrow> globals \<Rightarrow> fatal + fd_set \<times> fd_set \<times> SOCKET" where
  "stage2_init sys g =
     (if active_connections g < max_connections g
      then bind_err (FD_SET sys (sockin g) {}) (\<lambda>r2. Inr (r2, {}, max 0 (sockin g)))
      else Inr ({}, {}, 0))"

text \<open>
  Stage 2, the body of the loop of lines 436-461 for one valid slot, on the accumulator
  \<open>(r2_fd, w2_fd, max_fd)\<close>; \<open>r1\<close> and \<open>w1\<close> are the sets stage 1 left. In
  \<^verbatim>\<open>FD_ISSET(..) && !backlog_size\<close> the macro is the left operand and is always evaluated.
\<close>

definition stage2_slot :: "syscalls \<Rightarrow> globals \<Rightarrow> fd_set \<Rightarrow> fd_set \<Rightarrow> nat \<Rightarrow> fd_set \<times> fd_set \<times> SOCKET \<Rightarrow> fatal + fd_set \<times> fd_set \<times> SOCKET" where
  "stage2_slot sys g r1 w1 i acc =
     (case acc of (r2, w2, max_fd) \<Rightarrow>
       bind_err (if backlog_in_size g ! i \<noteq> 0 then FD_SET sys (conn_in g ! i) w2 else Inr w2) (\<lambda>w2a.
       bind_err (if backlog_out_size g ! i \<noteq> 0 then FD_SET sys (conn_out g ! i) w2a else Inr w2a) (\<lambda>w2b.
       bind_err (FD_ISSET sys (conn_in g ! i) w1) (\<lambda>in_writable.
       bind_err (if in_writable \<and> backlog_in_size g ! i = 0
                 then FD_SET sys (conn_out g ! i) r2 else Inr r2) (\<lambda>r2a.
       bind_err (FD_ISSET sys (conn_out g ! i) w1) (\<lambda>out_writable.
       bind_err (if out_writable \<and> backlog_out_size g ! i = 0
                 then FD_SET sys (conn_in g ! i) r2a else Inr r2a) (\<lambda>r2b.
       bind_err (FD_ISSET sys (conn_in g ! i) r1) (\<lambda>in_readable.
       bind_err (if in_readable then FD_SET sys (conn_out g ! i) w2b else Inr w2b) (\<lambda>w2c.
       bind_err (FD_ISSET sys (conn_out g ! i) r1) (\<lambda>out_readable.
       bind_err (if out_readable then FD_SET sys (conn_in g ! i) w2c else Inr w2c) (\<lambda>w2d.
         Inr (r2b, w2d, max max_fd (max (conn_in g ! i) (conn_out g ! i))))))))))))))"

fun stage2_loop :: "syscalls \<Rightarrow> globals \<Rightarrow> fd_set \<Rightarrow> fd_set \<Rightarrow> nat list \<Rightarrow> fd_set \<times> fd_set \<times> SOCKET \<Rightarrow> fatal + fd_set \<times> fd_set \<times> SOCKET" where
  "stage2_loop sys g r1 w1 [] acc = Inr acc"
| "stage2_loop sys g r1 w1 (i # is) acc =
     bind_err (valid_socket i g) (\<lambda>v.
       if v then bind_err (stage2_slot sys g r1 w1 i acc) (stage2_loop sys g r1 w1 is)
       else stage2_loop sys g r1 w1 is acc)"

text \<open>The interest sets of the second, blocking \<^verbatim>\<open>select\<close>, and its \<^verbatim>\<open>max_fd\<close>.\<close>

definition stage2_interest :: "syscalls \<Rightarrow> globals \<Rightarrow> fd_set \<Rightarrow> fd_set \<Rightarrow> fatal + fd_set \<times> fd_set \<times> SOCKET" where
  "stage2_interest sys g r1 w1 =
     bind_err (stage2_init sys g) (stage2_loop sys g r1 w1 [0 ..< nat (max_connections g)])"

text \<open>Line 480: \<^verbatim>\<open>if (FD_ISSET(sockin, &r2_fd)) accept_incoming();\<close>\<close>

definition admit :: "syscalls \<Rightarrow> fd_set \<Rightarrow> globals \<Rightarrow> fatal + globals" where
  "admit sys r2 g =
     bind_err (FD_ISSET sys (sockin g) r2) (\<lambda>pending.
       if pending
       then accept_incoming (accept_ret sys) (socket_ret sys) (connect_ret sys) g
       else Inr g)"

text \<open>
  The merge of lines 483-487, \<^verbatim>\<open>for (i=0; i<=max_fd; i++)\<close>: what stage 1 left set is
  added to the sets the second \<^verbatim>\<open>select\<close> left, on the accumulator \<open>(r2_fd, w2_fd)\<close>.
\<close>

fun merge_loop :: "syscalls \<Rightarrow> fd_set \<Rightarrow> fd_set \<Rightarrow> int list \<Rightarrow> fd_set \<times> fd_set \<Rightarrow> fatal + fd_set \<times> fd_set" where
  "merge_loop sys r1 w1 [] acc = Inr acc"
| "merge_loop sys r1 w1 (i # is) (r2, w2) =
     bind_err (FD_ISSET sys i r1) (\<lambda>in_r1.
     bind_err (if in_r1 then FD_SET sys i r2 else Inr r2) (\<lambda>r2'.
     bind_err (FD_ISSET sys i w1) (\<lambda>in_w1.
     bind_err (if in_w1 then FD_SET sys i w2 else Inr w2) (\<lambda>w2'.
       merge_loop sys r1 w1 is (r2', w2')))))"

text \<open>
  The body of the dispatch loop of lines 489-515 for slot \<open>i\<close>, on the globals and
  \<^verbatim>\<open>w2_fd\<close> (the only set the loop changes, by \<^verbatim>\<open>FD_CLR\<close>); \<open>r2\<close> is \<^verbatim>\<open>r2_fd\<close>. The
  conditions are \<^verbatim>\<open>&&\<close> chains: a macro is evaluated only if what stands left of it
  holds. The flush of lines 492-503 tests the handle it sends on and does not call
  \<^verbatim>\<open>valid_socket\<close>; the relay of lines 506-514 does.
\<close>

definition dispatch_flush :: "syscalls \<Rightarrow> nat \<Rightarrow> direction \<Rightarrow> globals \<times> fd_set \<Rightarrow> fatal + globals \<times> fd_set" where
  "dispatch_flush sys i dir st =
     (case st of (g, w2) \<Rightarrow>
       if conn_of dir g ! i \<noteq> INVALID_SOCKET \<and> backlog_size_of dir g ! i \<noteq> 0 then
         bind_err (FD_ISSET sys (conn_of dir g ! i) w2) (\<lambda>writable.
           if writable then
             bind_err (FD_CLR sys (conn_of dir g ! i) w2) (\<lambda>w2'.
               Inr (flush_backlog i dir
                      (flush_send_ret sys i dir (backlog_size_of dir g ! i)) g, w2'))
           else Inr (g, w2))
       else Inr (g, w2))"

definition dispatch_bounce :: "syscalls \<Rightarrow> fd_set \<Rightarrow> nat \<Rightarrow> direction \<Rightarrow> globals \<times> fd_set \<Rightarrow> fatal + globals \<times> fd_set" where
  "dispatch_bounce sys r2 i dir st =
     (case st of (g, w2) \<Rightarrow>
       bind_err (valid_socket i g) (\<lambda>v.
         let src = (if dir = OUT then conn_in g ! i else conn_out g ! i);
             dest = (if dir = OUT then conn_out g ! i else conn_in g ! i)
         in if v then
              bind_err (FD_ISSET sys src r2) (\<lambda>readable.
                if readable then
                  bind_err (FD_ISSET sys dest w2) (\<lambda>writable.
                    if writable then
                      let recvd = bounce_recv_ret sys i dir BACKLOG_SIZE in
                      bind_err
                        (bounce src dest i dir recvd (bounce_recv_buf sys i dir)
                           (bounce_send_ret sys i dir recvd) g)
                        (\<lambda>g'. Inr (g', w2))
                    else Inr (g, w2))
                else Inr (g, w2))
            else Inr (g, w2)))"

definition dispatch_slot :: "syscalls \<Rightarrow> fd_set \<Rightarrow> nat \<Rightarrow> globals \<times> fd_set \<Rightarrow> fatal + globals \<times> fd_set" where
  "dispatch_slot sys r2 i st =
     bind_err (dispatch_flush sys i IN st) (\<lambda>st1.
     bind_err (dispatch_flush sys i OUT st1) (\<lambda>st2.
     bind_err (dispatch_bounce sys r2 i OUT st2) (dispatch_bounce sys r2 i IN)))"

fun dispatch_loop :: "syscalls \<Rightarrow> fd_set \<Rightarrow> nat list \<Rightarrow> globals \<times> fd_set \<Rightarrow> fatal + globals \<times> fd_set" where
  "dispatch_loop sys r2 [] st = Inr st"
| "dispatch_loop sys r2 (i # is) st =
     bind_err (dispatch_slot sys r2 i st) (dispatch_loop sys r2 is)"

text \<open>
  One call of \<^verbatim>\<open>poll_conn\<close>. The second \<^verbatim>\<open>select\<close> blocks; it is given the sets of
  stage 2 and \<^verbatim>\<open>max_fd+1\<close>.
\<close>

definition poll_conn :: "syscalls \<Rightarrow> globals \<Rightarrow> fatal + globals" where
  "poll_conn sys g =
     bind_err (stage1 sys g) (\<lambda>s1.
       case s1 of (r1, w1) \<Rightarrow>
         bind_err (stage2_interest sys g r1 w1) (\<lambda>acc.
           case acc of (r2i, w2i, max_fd) \<Rightarrow>
             if select2_ret sys = 0 then Inl Err_select_timeout
             else if select2_ret sys = - 1 then Inl Err_select2
             else
               let r2 = r2i \<inter> select2_readable sys;
                   w2 = w2i \<inter> select2_writable sys
               in bind_err (admit sys r2 g) (\<lambda>g1.
                  bind_err (merge_loop sys r1 w1 [0 .. max_fd] (r2, w2)) (\<lambda>merged.
                    case merged of (r2m, w2m) \<Rightarrow>
                      bind_err
                        (dispatch_loop sys r2m [0 ..< nat (max_connections g1)] (g1, w2m))
                        (\<lambda>st. Inr (fst st))))))"

subsection \<open>The state main hands to the loop\<close>

text \<open>
  Lines 608-648 of \<^verbatim>\<open>main\<close>: every slot empty, every backlog of size and position 0.
  \<open>mem_in i\<close> and \<open>mem_out i\<close> are the contents of the regions \<^verbatim>\<open>malloc(BACKLOG_SIZE)\<close>
  returned, \<open>sock\<close> is the listening socket.
\<close>

definition init_globals :: "int \<Rightarrow> SOCKET \<Rightarrow> (nat \<Rightarrow> buffer) \<Rightarrow> (nat \<Rightarrow> buffer) \<Rightarrow> globals" where
  "init_globals maxc sock mem_in mem_out =
     \<lparr>conn_in = replicate (nat maxc) INVALID_SOCKET,
      conn_out = replicate (nat maxc) INVALID_SOCKET,
      sockin = sock,
      max_connections = maxc,
      active_connections = 0,
      backlog_in_size = replicate (nat maxc) 0,
      backlog_out_size = replicate (nat maxc) 0,
      backlog_in_pos = replicate (nat maxc) 0,
      backlog_out_pos = replicate (nat maxc) 0,
      backlog_in = map mem_in [0 ..< nat maxc],
      backlog_out = map mem_out [0 ..< nat maxc],
      trace = []\<rparr>"

subsection \<open>main: the arguments\<close>

text \<open>
  \<^verbatim>\<open>atoi\<close> is the C library's: \<^verbatim>\<open>(int) strtol(s, NULL, 10)\<close>. \<^verbatim>\<open>strtol\<close> skips white
  space, reads an optional sign and then decimal digits up to the first character that is
  not one; with no digit it gives 0, and a value that does not fit a \<^verbatim>\<open>long\<close> is
  replaced by \<^verbatim>\<open>LONG_MAX\<close> or \<^verbatim>\<open>LONG_MIN\<close>. The conversion to \<^verbatim>\<open>int\<close> keeps the low
  32 bits. This is the function of glibc with a \<^verbatim>\<open>long\<close> of 64 bits and an \<^verbatim>\<open>int\<close> of
  32; C itself leaves \<^verbatim>\<open>atoi\<close> undefined on a text whose value does not fit an
  \<^verbatim>\<open>int\<close>.
\<close>

definition isspace :: "char \<Rightarrow> bool" where
  "isspace c \<longleftrightarrow> c \<in> set [CHR '' '', CHR 0x09, CHR 0x0A, CHR 0x0B, CHR 0x0C, CHR 0x0D]"

definition isdigit :: "char \<Rightarrow> bool" where
  "isdigit c \<longleftrightarrow> (48::nat) \<le> of_char c \<and> (of_char c :: nat) \<le> 57"

fun atoi_digits :: "int \<Rightarrow> string \<Rightarrow> int" where
  "atoi_digits acc [] = acc"
| "atoi_digits acc (c # cs) =
     (if isdigit c then atoi_digits (acc * 10 + (int (of_char c) - 48)) cs else acc)"

definition LONG_MAX :: int where
  "LONG_MAX = 9223372036854775807"

definition LONG_MIN :: int where
  "LONG_MIN = - 9223372036854775807 - 1"

definition strtol :: "string \<Rightarrow> int" where
  "strtol s =
     (let v = (case dropWhile isspace s of
                 [] \<Rightarrow> 0
               | c # cs \<Rightarrow>
                   if c = CHR ''-'' then - atoi_digits 0 cs
                   else if c = CHR ''+'' then atoi_digits 0 cs
                   else atoi_digits 0 (c # cs))
      in if v > LONG_MAX then LONG_MAX else if v < LONG_MIN then LONG_MIN else v)"

definition atoi :: "string \<Rightarrow> int" where
  "atoi s = sint (word_of_int (strtol s) :: 32 word)"

definition EXIT_SUCCESS :: int where
  "EXIT_SUCCESS = 0"

definition EXIT_FAILURE :: int where
  "EXIT_FAILURE = 1"

text \<open>
  Lines 525-598 of \<^verbatim>\<open>main\<close>: either the process returns with an exit code, or it goes
  on to set up the relay with \<^verbatim>\<open>localport\<close>, \<^verbatim>\<open>remotehost\<close>, \<^verbatim>\<open>remoteport\<close>,
  \<^verbatim>\<open>max_connections\<close> (10 unless \<^verbatim>\<open>-max\<close> is given) and \<^verbatim>\<open>verbose\<close>, the arguments of
  \<open>Relay\<close> in this order. \<open>argv\<close> holds the \<^verbatim>\<open>argc\<close> argument strings without their
  terminating 0. The loop over \<^verbatim>\<open>argv[2]\<close> cuts the string at its first colon:
  \<open>remotehost\<close> is the text before it and \<open>port_text\<close> is \<^verbatim>\<open>argv[2]+i\<close> after the loop, so
  \<^verbatim>\<open>argv[2][i] == 0\<close> says that \<open>port_text\<close> is empty (no colon, or nothing behind it).
  \<^verbatim>\<open>remoteport\<close> is a static \<^verbatim>\<open>int\<close>, 0 until the loop assigns it.
\<close>

datatype startup = Exit int | Relay int string int int bool

definition parse_args :: "string list \<Rightarrow> startup" where
  "parse_args argv =
     (let argc = length argv in
      if argc < 3 then Exit EXIT_SUCCESS
      else
        let localport = atoi (argv ! 1) in
        if localport = 0 then Exit EXIT_FAILURE
        else
          let remotehost = takeWhile (\<lambda>c. c \<noteq> CHR '':'') (argv ! 2);
              port_text = drop (length remotehost + 1) (argv ! 2);
              remoteport = (if length remotehost < length (argv ! 2) then atoi port_text else 0)
          in
          if port_text = [] then Exit EXIT_FAILURE
          else if remoteport = 0 then Exit EXIT_FAILURE
          else if argc > 3 then
            (if argv ! 3 = ''-v'' then Relay localport remotehost remoteport 10 True
             else if argv ! 3 \<noteq> ''-max'' then Exit EXIT_FAILURE
             else if argc < 5 then Exit EXIT_FAILURE
             else
               let max_conn = atoi (argv ! 4) in
               if max_conn < 1 \<or> max_conn > 65535 then Exit EXIT_FAILURE
               else Relay localport remotehost remoteport max_conn
                      (argc > 5 \<and> argv ! 5 = ''-v''))
          else Relay localport remotehost remoteport 10 False)"

text \<open>
  Line 653, \<^verbatim>\<open>addrin.sin_port = htons(localport)\<close>: \<^verbatim>\<open>htons\<close> takes a 16-bit unsigned
  value, so the \<^verbatim>\<open>int\<close> is converted modulo \<open>2 ^ 16\<close>. The word is the port number the
  socket is bound to (the byte order of its representation aside).
\<close>

definition sin_port :: "int \<Rightarrow> 16 word" where
  "sin_port localport = word_of_int localport"


section \<open>What the proofs speak about\<close>

subsection \<open>The slot table\<close>

text \<open>
  The arrays have \<^verbatim>\<open>max_connections\<close> entries each, as \<^verbatim>\<open>main\<close> allocates them.
\<close>

definition wf_arrays :: "globals \<Rightarrow> bool" where
  "wf_arrays g \<longleftrightarrow>
     length (conn_in g) = nat (max_connections g) \<and>
     length (conn_out g) = nat (max_connections g) \<and>
     length (backlog_in_size g) = nat (max_connections g) \<and>
     length (backlog_out_size g) = nat (max_connections g) \<and>
     length (backlog_in_pos g) = nat (max_connections g) \<and>
     length (backlog_out_pos g) = nat (max_connections g) \<and>
     length (backlog_in g) = nat (max_connections g) \<and>
     length (backlog_out g) = nat (max_connections g)"

text \<open>
  A slot is dead when one of its handles is \<^verbatim>\<open>INVALID_SOCKET\<close> (then \<^verbatim>\<open>valid_socket\<close>
  does not return 1) and half open when exactly one is. \<open>other\<close> is the opposite
  direction.
\<close>

definition slot_dead :: "globals \<Rightarrow> nat \<Rightarrow> bool" where
  "slot_dead g i \<longleftrightarrow> conn_in g ! i = INVALID_SOCKET \<or> conn_out g ! i = INVALID_SOCKET"

definition half_open :: "globals \<Rightarrow> nat \<Rightarrow> bool" where
  "half_open g i \<longleftrightarrow> (conn_in g ! i = INVALID_SOCKET) \<noteq> (conn_out g ! i = INVALID_SOCKET)"

definition handles_consistent :: "globals \<Rightarrow> bool" where
  "handles_consistent g \<longleftrightarrow> (\<forall>i < nat (max_connections g). \<not> half_open g i)"

definition other :: "direction \<Rightarrow> direction" where
  "other d = (if d = IN then OUT else IN)"

text \<open>
  Slot \<open>k\<close> is the same in two states: its sockets, and the sizes, positions and
  contents of its two backlogs.
\<close>

definition slot_eq :: "globals \<Rightarrow> globals \<Rightarrow> nat \<Rightarrow> bool" where
  "slot_eq g g' k \<longleftrightarrow>
     conn_in g' ! k = conn_in g ! k \<and> conn_out g' ! k = conn_out g ! k \<and>
     backlog_in_size g' ! k = backlog_in_size g ! k \<and>
     backlog_out_size g' ! k = backlog_out_size g ! k \<and>
     backlog_in_pos g' ! k = backlog_in_pos g ! k \<and>
     backlog_out_pos g' ! k = backlog_out_pos g ! k \<and>
     backlog_in g' ! k = backlog_in g ! k \<and> backlog_out g' ! k = backlog_out g ! k"

text \<open>
  What \<^verbatim>\<open>kill_connection(n)\<close> leaves of a state \<open>g\<close>: slot \<open>n\<close> empty with its
  backlog counters at 0, both its sockets closed last, one connection less, every other
  slot as it was.
\<close>

definition torn_down :: "nat \<Rightarrow> globals \<Rightarrow> globals \<Rightarrow> bool" where
  "torn_down n g g' \<longleftrightarrow>
     conn_in g' ! n = INVALID_SOCKET \<and> conn_out g' ! n = INVALID_SOCKET \<and>
     backlog_in_size g' ! n = 0 \<and> backlog_out_size g' ! n = 0 \<and>
     backlog_in_pos g' ! n = 0 \<and> backlog_out_pos g' ! n = 0 \<and>
     active_connections g' = active_connections g - 1 \<and>
     (\<exists>pre. trace g' = pre @ [Ev_closesocket (conn_in g ! n), Ev_closesocket (conn_out g ! n)]) \<and>
     (\<forall>k. k \<noteq> n \<longrightarrow> slot_eq g g' k)"

subsection \<open>The backlog invariant\<close>

text \<open>
  The backlog of a slot and direction is in order when position and size are not negative,
  end within the region, and an empty backlog starts at 0. A slot is in order when its
  handles are both set or both empty, an empty slot has empty backlogs, and both backlogs
  are in order; the table is when every slot is.
\<close>

definition backlog_ok :: "direction \<Rightarrow> globals \<Rightarrow> nat \<Rightarrow> bool" where
  "backlog_ok dir g i \<longleftrightarrow>
     0 \<le> backlog_pos_of dir g ! i \<and> 0 \<le> backlog_size_of dir g ! i \<and>
     backlog_pos_of dir g ! i + backlog_size_of dir g ! i \<le> BACKLOG_SIZE \<and>
     (backlog_size_of dir g ! i = 0 \<longrightarrow> backlog_pos_of dir g ! i = 0)"

definition slot_inv :: "globals \<Rightarrow> nat \<Rightarrow> bool" where
  "slot_inv g i \<longleftrightarrow>
     ((conn_in g ! i = INVALID_SOCKET) = (conn_out g ! i = INVALID_SOCKET)) \<and>
     (conn_in g ! i = INVALID_SOCKET \<longrightarrow> backlog_in_size g ! i = 0 \<and> backlog_out_size g ! i = 0) \<and>
     backlog_ok IN g i \<and> backlog_ok OUT g i"

definition table_inv :: "globals \<Rightarrow> bool" where
  "table_inv g \<longleftrightarrow> wf_arrays g \<and> (\<forall>i < nat (max_connections g). slot_inv g i)"

text \<open>
  The bound alone, \<^verbatim>\<open>backlog_pos[i] + backlog_size[i] <= BACKLOG_SIZE\<close> in both
  directions.
\<close>

definition slot_bounded :: "globals \<Rightarrow> nat \<Rightarrow> bool" where
  "slot_bounded g i \<longleftrightarrow>
     backlog_in_pos g ! i + backlog_in_size g ! i \<le> BACKLOG_SIZE \<and>
     backlog_out_pos g ! i + backlog_out_size g ! i \<le> BACKLOG_SIZE"

definition backlog_bounded :: "globals \<Rightarrow> bool" where
  "backlog_bounded g \<longleftrightarrow> (\<forall>i < nat (max_connections g). slot_bounded g i)"

text \<open>
  The number of occupied slots, and the states in which \<^verbatim>\<open>active_connections\<close>
  counts them.
\<close>

definition occupied :: "globals \<Rightarrow> nat" where
  "occupied g = length (filter (\<lambda>i. \<not> slot_dead g i) [0 ..< nat (max_connections g)])"

definition count_inv :: "globals \<Rightarrow> bool" where
  "count_inv g \<longleftrightarrow>
     wf_arrays g \<and> handles_consistent g \<and> active_connections g = int (occupied g)"

subsection \<open>The operating system\<close>

text \<open>
  A \<^verbatim>\<open>send\<close> of a backlog and a \<^verbatim>\<open>recv\<close> return at most the length they were asked
  for.
\<close>

definition syscalls_ok :: "syscalls \<Rightarrow> bool" where
  "syscalls_ok sys \<longleftrightarrow>
     (\<forall>i d len. flush_send_ret sys i d len \<le> len) \<and>
     (\<forall>i d len. bounce_recv_ret sys i d len \<le> len)"

text \<open>
  Open descriptors are pairwise different: the sockets of the occupied slots and the
  listening socket.
\<close>

definition fds_distinct :: "globals \<Rightarrow> bool" where
  "fds_distinct g \<longleftrightarrow>
     (\<forall>i < nat (max_connections g). \<forall>j < nat (max_connections g).
        \<not> slot_dead g i \<and> \<not> slot_dead g j \<longrightarrow>
        conn_in g ! i \<noteq> conn_out g ! j \<and>
        conn_in g ! i \<noteq> sockin g \<and> conn_out g ! i \<noteq> sockin g \<and>
        (i \<noteq> j \<longrightarrow> conn_in g ! i \<noteq> conn_in g ! j \<and> conn_out g ! i \<noteq> conn_out g ! j))"

text \<open>
  The descriptors in use, and an operating system whose \<^verbatim>\<open>accept\<close> and \<^verbatim>\<open>socket\<close>
  return descriptors that are not in use. Between two states, \<open>conn_shrink\<close> says that
  every slot kept its sockets or is dead.
\<close>

definition live_fds :: "globals \<Rightarrow> fd_set" where
  "live_fds g =
     insert (sockin g)
       (\<Union>i \<in> {i. i < nat (max_connections g) \<and> \<not> slot_dead g i}. {conn_in g ! i, conn_out g ! i})"

definition fresh_fds :: "syscalls \<Rightarrow> globals \<Rightarrow> bool" where
  "fresh_fds sys g \<longleftrightarrow>
     (0 \<le> accept_ret sys \<longrightarrow>
        accept_ret sys \<notin> live_fds g \<and>
        (0 \<le> socket_ret sys \<longrightarrow>
           socket_ret sys \<notin> live_fds g \<and> socket_ret sys \<noteq> accept_ret sys))"

definition conn_shrink :: "globals \<Rightarrow> globals \<Rightarrow> bool" where
  "conn_shrink g g' \<longleftrightarrow>
     max_connections g' = max_connections g \<and> sockin g' = sockin g \<and>
     (\<forall>k < nat (max_connections g).
        slot_dead g' k \<or> (conn_in g' ! k = conn_in g ! k \<and> conn_out g' ! k = conn_out g ! k))"

text \<open>
  The states the loop \<^verbatim>\<open>while (1) poll_conn();\<close> of \<^verbatim>\<open>main\<close> goes through, an
  iteration that exits apart.
\<close>

inductive reachable :: "globals \<Rightarrow> bool" where
  start: "reachable (init_globals maxc sock mem_in mem_out)"
| step: "reachable g \<Longrightarrow> syscalls_ok sys \<Longrightarrow> poll_conn sys g = Inr g' \<Longrightarrow> reachable g'"

subsection \<open>The loops on sets without a capacity\<close>

text \<open>
  The loops of \<^verbatim>\<open>poll_conn\<close> once more, with \<open>insert\<close>, \<open>\<in>\<close> and set difference for the
  three macros whatever the descriptor. They are not the program: they are what the
  proofs of the invariants are made on. Where the program's loop returns, or takes one of
  its exits, the loop here does the same (\<open>refines\<close>: the two results are equal, or
  the first is \<open>Undefined_fd\<close>).
\<close>

fun stage1_loop_sets :: "globals \<Rightarrow> nat list \<Rightarrow> fd_set \<times> fd_set \<times> SOCKET \<Rightarrow> fatal + fd_set \<times> fd_set \<times> SOCKET" where
  "stage1_loop_sets g [] acc = Inr acc"
| "stage1_loop_sets g (i # is) (r1, w1, max_fd) =
     bind_err (valid_socket i g) (\<lambda>v.
       if v then
         stage1_loop_sets g is
           (insert (conn_out g ! i) (insert (conn_in g ! i) r1),
            insert (conn_out g ! i) (insert (conn_in g ! i) w1),
            max max_fd (max (conn_in g ! i) (conn_out g ! i)))
       else stage1_loop_sets g is (r1, w1, max_fd))"

definition stage2_slot_sets :: "globals \<Rightarrow> fd_set \<Rightarrow> fd_set \<Rightarrow> nat \<Rightarrow> fd_set \<times> fd_set \<times> SOCKET \<Rightarrow> fd_set \<times> fd_set \<times> SOCKET" where
  "stage2_slot_sets g r1 w1 i acc =
     (case acc of (r2, w2, max_fd) \<Rightarrow>
       let w2a = (if backlog_in_size g ! i \<noteq> 0 then insert (conn_in g ! i) w2 else w2);
           w2b = (if backlog_out_size g ! i \<noteq> 0 then insert (conn_out g ! i) w2a else w2a);
           r2a = (if conn_in g ! i \<in> w1 \<and> backlog_in_size g ! i = 0
                  then insert (conn_out g ! i) r2 else r2);
           r2b = (if conn_out g ! i \<in> w1 \<and> backlog_out_size g ! i = 0
                  then insert (conn_in g ! i) r2a else r2a);
           w2c = (if conn_in g ! i \<in> r1 then insert (conn_out g ! i) w2b else w2b);
           w2d = (if conn_out g ! i \<in> r1 then insert (conn_in g ! i) w2c else w2c)
       in (r2b, w2d, max max_fd (max (conn_in g ! i) (conn_out g ! i))))"

fun stage2_loop_sets :: "globals \<Rightarrow> fd_set \<Rightarrow> fd_set \<Rightarrow> nat list \<Rightarrow> fd_set \<times> fd_set \<times> SOCKET \<Rightarrow> fatal + fd_set \<times> fd_set \<times> SOCKET" where
  "stage2_loop_sets g r1 w1 [] acc = Inr acc"
| "stage2_loop_sets g r1 w1 (i # is) acc =
     bind_err (valid_socket i g) (\<lambda>v.
       if v then stage2_loop_sets g r1 w1 is (stage2_slot_sets g r1 w1 i acc)
       else stage2_loop_sets g r1 w1 is acc)"

definition stage2_init_sets :: "globals \<Rightarrow> fd_set \<times> fd_set \<times> SOCKET" where
  "stage2_init_sets g =
     (if active_connections g < max_connections g
      then ({sockin g}, {}, max 0 (sockin g))
      else ({}, {}, 0))"

definition dispatch_flush_sets :: "syscalls \<Rightarrow> nat \<Rightarrow> direction \<Rightarrow> globals \<times> fd_set \<Rightarrow> globals \<times> fd_set" where
  "dispatch_flush_sets sys i dir st =
     (case st of (g, w2) \<Rightarrow>
       if conn_of dir g ! i \<noteq> INVALID_SOCKET \<and> backlog_size_of dir g ! i \<noteq> 0 \<and>
          conn_of dir g ! i \<in> w2
       then (flush_backlog i dir (flush_send_ret sys i dir (backlog_size_of dir g ! i)) g,
             w2 - {conn_of dir g ! i})
       else (g, w2))"

definition dispatch_bounce_sets :: "syscalls \<Rightarrow> fd_set \<Rightarrow> nat \<Rightarrow> direction \<Rightarrow> globals \<times> fd_set \<Rightarrow> fatal + globals \<times> fd_set" where
  "dispatch_bounce_sets sys r2 i dir st =
     (case st of (g, w2) \<Rightarrow>
       bind_err (valid_socket i g) (\<lambda>v.
         let src = (if dir = OUT then conn_in g ! i else conn_out g ! i);
             dest = (if dir = OUT then conn_out g ! i else conn_in g ! i)
         in if v \<and> src \<in> r2 \<and> dest \<in> w2 then
              let recvd = bounce_recv_ret sys i dir BACKLOG_SIZE in
              bind_err
                (bounce src dest i dir recvd (bounce_recv_buf sys i dir)
                   (bounce_send_ret sys i dir recvd) g)
                (\<lambda>g'. Inr (g', w2))
            else Inr (g, w2)))"

definition dispatch_slot_sets :: "syscalls \<Rightarrow> fd_set \<Rightarrow> nat \<Rightarrow> globals \<times> fd_set \<Rightarrow> fatal + globals \<times> fd_set" where
  "dispatch_slot_sets sys r2 i st =
     bind_err (dispatch_bounce_sets sys r2 i OUT (dispatch_flush_sets sys i OUT (dispatch_flush_sets sys i IN st)))
       (dispatch_bounce_sets sys r2 i IN)"

fun dispatch_loop_sets :: "syscalls \<Rightarrow> fd_set \<Rightarrow> nat list \<Rightarrow> globals \<times> fd_set \<Rightarrow> fatal + globals \<times> fd_set" where
  "dispatch_loop_sets sys r2 [] st = Inr st"
| "dispatch_loop_sets sys r2 (i # is) st =
     bind_err (dispatch_slot_sets sys r2 i st) (dispatch_loop_sets sys r2 is)"

definition stage1_sets :: "syscalls \<Rightarrow> globals \<Rightarrow> fatal + fd_set \<times> fd_set" where
  "stage1_sets sys g =
     bind_err (stage1_loop_sets g [0 ..< nat (max_connections g)] ({}, {}, 0)) (\<lambda>acc.
       case acc of (r1, w1, max_fd) \<Rightarrow>
         if max_fd \<noteq> 0 then
           (if select1_ret sys = - 1 then Inl Err_select1
            else Inr (r1 \<inter> select1_readable sys, w1 \<inter> select1_writable sys))
         else Inr (r1, w1))"

definition stage2_interest_sets :: "globals \<Rightarrow> fd_set \<Rightarrow> fd_set \<Rightarrow> fatal + fd_set \<times> fd_set \<times> SOCKET" where
  "stage2_interest_sets g r1 w1 =
     stage2_loop_sets g r1 w1 [0 ..< nat (max_connections g)] (stage2_init_sets g)"

definition admit_sets :: "syscalls \<Rightarrow> fd_set \<Rightarrow> globals \<Rightarrow> fatal + globals" where
  "admit_sets sys r2 g =
     (if sockin g \<in> r2
      then accept_incoming (accept_ret sys) (socket_ret sys) (connect_ret sys) g
      else Inr g)"

definition poll_conn_sets :: "syscalls \<Rightarrow> globals \<Rightarrow> fatal + globals" where
  "poll_conn_sets sys g =
     bind_err (stage1_sets sys g) (\<lambda>s1.
       case s1 of (r1, w1) \<Rightarrow>
         bind_err (stage2_interest_sets g r1 w1) (\<lambda>acc.
           case acc of (r2i, w2i, max_fd) \<Rightarrow>
             if select2_ret sys = 0 then Inl Err_select_timeout
             else if select2_ret sys = - 1 then Inl Err_select2
             else
               let r2 = r2i \<inter> select2_readable sys;
                   w2 = w2i \<inter> select2_writable sys
               in bind_err (admit_sets sys r2 g)
                    (\<lambda>g1.
                       let r2m = r2 \<union> (r1 \<inter> {0 .. max_fd});
                           w2m = w2 \<union> (w1 \<inter> {0 .. max_fd})
                       in bind_err
                            (dispatch_loop_sets sys r2m [0 ..< nat (max_connections g1)] (g1, w2m))
                            (\<lambda>st. Inr (fst st)))))"

definition refines :: "fatal + 'a \<Rightarrow> fatal + 'a \<Rightarrow> bool" where
  "refines x y \<longleftrightarrow> x = y \<or> (\<exists>fd. x = Inl (Undefined_fd fd))"

text \<open>
  The descriptors the macros are used with in an iteration that starts in \<open>g\<close>: the
  listening socket and the sockets of the occupied slots, and the two descriptors
  \<^verbatim>\<open>accept\<close> and \<^verbatim>\<open>socket\<close> return if a client is admitted. The bound says that an
  \<^verbatim>\<open>fd_set\<close> has a bit for each.
\<close>

definition fds_bounded :: "syscalls \<Rightarrow> globals \<Rightarrow> bool" where
  "fds_bounded sys g \<longleftrightarrow>
     fd_in_range sys (sockin g) \<and>
     (\<forall>i < nat (max_connections g).
        \<not> slot_dead g i \<longrightarrow> fd_in_range sys (conn_in g ! i) \<and> fd_in_range sys (conn_out g ! i))"

definition accepts_bounded :: "syscalls \<Rightarrow> bool" where
  "accepts_bounded sys \<longleftrightarrow>
     accept_ret sys < FD_SETSIZE sys \<and> socket_ret sys < FD_SETSIZE sys"

subsection \<open>Stage 2 and the dispatch loop, step by step\<close>

text \<open>
  The descriptors the stage 2 loop adds to \<^verbatim>\<open>r2_fd\<close> for slot \<open>i\<close>.
\<close>

definition read_interest :: "globals \<Rightarrow> fd_set \<Rightarrow> nat \<Rightarrow> fd_set" where
  "read_interest g w1 i =
     (if slot_dead g i then {}
      else (if conn_in g ! i \<in> w1 \<and> backlog_in_size g ! i = 0 then {conn_out g ! i} else {}) \<union>
           (if conn_out g ! i \<in> w1 \<and> backlog_out_size g ! i = 0 then {conn_in g ! i} else {}))"

text \<open>
  Between two states of the dispatch loop for slot \<open>i\<close>: the slot was killed, or its
  sockets and the backlog size of direction \<open>d\<close> are unchanged. A direction is blocked when
  \<^verbatim>\<open>bounce\<close> cannot run for it with a backlog that is not empty.
\<close>

definition slot_kept :: "direction \<Rightarrow> globals \<Rightarrow> globals \<Rightarrow> nat \<Rightarrow> bool" where
  "slot_kept d g g' i \<longleftrightarrow>
     slot_dead g' i \<or>
     (conn_in g' ! i = conn_in g ! i \<and> conn_out g' ! i = conn_out g ! i \<and>
      backlog_size_of d g' ! i = backlog_size_of d g ! i)"

definition blocked :: "direction \<Rightarrow> globals \<Rightarrow> fd_set \<Rightarrow> nat \<Rightarrow> bool" where
  "blocked d g w2 i \<longleftrightarrow>
     slot_dead g i \<or> backlog_size_of d g ! i = 0 \<or> conn_of d g ! i \<notin> w2"

text \<open>
  What one flush step, one bounce step, the body for one slot and the whole loop add to the
  trace, with what the proofs need of the states before and after.
\<close>

definition flush_step_facts ::
  "nat \<Rightarrow> direction \<Rightarrow> globals \<times> fd_set \<Rightarrow> globals \<times> fd_set \<Rightarrow> event list \<Rightarrow> bool" where
  "flush_step_facts i d st st' evs \<longleftrightarrow>
     trace (fst st') = trace (fst st) @ evs \<and>
     (\<forall>j d'. Ev_bounce j d' \<notin> set evs) \<and>
     (\<forall>j d'. Ev_flush_backlog j d' \<in> set evs \<longrightarrow> j = i \<and> d' = d) \<and>
     snd st' \<subseteq> snd st \<and>
     slot_kept (other d) (fst st) (fst st') i \<and>
     blocked d (fst st') (snd st') i \<and>
     (Ev_flush_backlog i d \<in> set evs \<longrightarrow>
        slot_dead (fst st') i \<or> conn_of d (fst st') ! i \<notin> snd st') \<and>
     (Ev_flush_backlog i d \<notin> set evs \<longrightarrow> st' = st)"

definition bounce_step_facts ::
  "nat \<Rightarrow> direction \<Rightarrow> globals \<times> fd_set \<Rightarrow> globals \<times> fd_set \<Rightarrow> event list \<Rightarrow> bool" where
  "bounce_step_facts i d st st' evs \<longleftrightarrow>
     trace (fst st') = trace (fst st) @ evs \<and>
     (\<forall>j d'. Ev_flush_backlog j d' \<notin> set evs) \<and>
     (\<forall>j d'. Ev_bounce j d' \<in> set evs \<longrightarrow> j = i \<and> d' = d) \<and>
     snd st' = snd st \<and>
     slot_kept (other d) (fst st) (fst st') i \<and>
     (Ev_bounce i d \<in> set evs \<longrightarrow>
        \<not> slot_dead (fst st) i \<and> conn_of d (fst st) ! i \<in> snd st)"

definition slot_step_facts ::
  "nat \<Rightarrow> globals \<times> fd_set \<Rightarrow> globals \<times> fd_set \<Rightarrow> event list \<Rightarrow> bool" where
  "slot_step_facts i st st' evs \<longleftrightarrow>
     trace (fst st') = trace (fst st) @ evs \<and>
     (\<forall>j d. Ev_flush_backlog j d \<in> set evs \<or> Ev_bounce j d \<in> set evs \<longrightarrow> j = i) \<and>
     (\<forall>d. Ev_bounce i d \<in> set evs \<longrightarrow>
        Ev_flush_backlog i d \<notin> set evs \<and> backlog_size_of d (fst st) ! i = 0) \<and>
     snd st' \<subseteq> snd st"

definition loop_facts :: "nat list \<Rightarrow> globals \<Rightarrow> globals \<Rightarrow> event list \<Rightarrow> bool" where
  "loop_facts is g g' evs \<longleftrightarrow>
     trace g' = trace g @ evs \<and>
     (\<forall>j d. Ev_flush_backlog j d \<in> set evs \<or> Ev_bounce j d \<in> set evs \<longrightarrow> j \<in> set is) \<and>
     (\<forall>j d. Ev_bounce j d \<in> set evs \<longrightarrow>
        Ev_flush_backlog j d \<notin> set evs \<and> backlog_size_of d g ! j = 0)"

subsection \<open>A run: accept, partial send, drain\<close>

text \<open>
  One slot, listening socket 3. A client is accepted (sockets 4 and 5), 100 bytes arrive
  of which the server takes 40, and the next iteration drains the 60 left although the
  client is readable again. \<open>demo_pair\<close> is a table of two connections, the second with
  10 bytes backlogged; \<open>demo_half\<close> is a slot with one handle only, \<open>demo_lone\<close> the
  same with 7 bytes backlogged for the handle it has. \<^verbatim>\<open>FD_SETSIZE\<close> is 1024.
\<close>

definition zero_mem :: "nat \<Rightarrow> buffer" where
  "zero_mem = (\<lambda>_ _. 0)"

definition payload :: buffer where
  "payload = (\<lambda>k. of_nat k)"

definition demo_start :: globals where
  "demo_start = init_globals 1 3 zero_mem zero_mem"

definition demo_accept :: syscalls where
  "demo_accept =
     \<lparr>FD_SETSIZE = 1024, select1_ret = 0, select1_readable = {}, select1_writable = {},
      select2_ret = 1, select2_readable = {3}, select2_writable = {},
      accept_ret = 4, socket_ret = 5, connect_ret = 0,
      flush_send_ret = (\<lambda>_ _ len. len),
      bounce_recv_ret = (\<lambda>_ _ len. min len 100),
      bounce_recv_buf = (\<lambda>_ _. payload),
      bounce_send_ret = (\<lambda>_ _ len. min len 40)\<rparr>"

definition demo_open :: globals where
  "demo_open = demo_start\<lparr>conn_in := [4], conn_out := [5], active_connections := 1\<rparr>"

definition demo_partial :: syscalls where
  "demo_partial =
     demo_accept\<lparr>select1_ret := 3, select1_readable := {4}, select1_writable := {4, 5},
       select2_ret := 2, select2_readable := {4}, select2_writable := {5}\<rparr>"

definition demo_backlogged :: globals where
  "demo_backlogged =
     demo_open\<lparr>backlog_out_size := [60],
       backlog_out := [memcpy (zero_mem 0) 0 (\<lambda>k. payload (k + 40)) 60],
       trace := [Ev_bounce 0 OUT]\<rparr>"

definition demo_drain :: syscalls where
  "demo_drain =
     demo_accept\<lparr>select1_ret := 2, select1_readable := {4}, select1_writable := {5},
       select2_ret := 1, select2_readable := {4}, select2_writable := {5}\<rparr>"

definition demo_drained :: globals where
  "demo_drained =
     demo_backlogged\<lparr>backlog_out_size := [0], trace := [Ev_bounce 0 OUT, Ev_flush_backlog 0 OUT]\<rparr>"

definition demo_pair :: globals where
  "demo_pair =
     (init_globals 2 3 zero_mem zero_mem)
       \<lparr>conn_in := [4, 6], conn_out := [5, 7], active_connections := 2,
        backlog_out_size := [0, 10]\<rparr>"



section \<open>Lemmas\<close>

subsection \<open>The program's loops and the loops on sets\<close>

lemma bind_err_simps [simp]:
  "bind_err (Inl e) f = Inl e" "bind_err (Inr v) f = f v"
  by (simp_all add: bind_err_def)

lemma bind_err_Inr_iff: "bind_err m f = Inr y \<longleftrightarrow> (\<exists>v. m = Inr v \<and> f v = Inr y)"
  by (cases m) simp_all

lemma FD_in_range:
  assumes "fd_in_range sys fd"
  shows "FD_SET sys fd s = Inr (insert fd s)" "FD_CLR sys fd s = Inr (s - {fd})"
    "FD_ISSET sys fd s = Inr (fd \<in> s)"
  using assms by (simp_all add: FD_SET_def FD_CLR_def FD_ISSET_def)

lemma FD_out_of_range:
  assumes "\<not> fd_in_range sys fd"
  shows "FD_SET sys fd s = Inl (Undefined_fd fd)" "FD_CLR sys fd s = Inl (Undefined_fd fd)"
    "FD_ISSET sys fd s = Inl (Undefined_fd fd)"
  using assms by (simp_all add: FD_SET_def FD_CLR_def FD_ISSET_def)

lemma refines_refl: "refines x x"
  by (simp add: refines_def)

lemma refines_undefined: "refines (Inl (Undefined_fd fd)) y"
  by (simp add: refines_def)

lemma refines_Inr: "refines x y \<Longrightarrow> x = Inr v \<Longrightarrow> y = Inr v"
  by (auto simp add: refines_def)

lemma refines_Inl: "refines x y \<Longrightarrow> x = Inl e \<Longrightarrow> (\<exists>fd. e = Undefined_fd fd) \<or> y = Inl e"
  by (auto simp add: refines_def)

lemma refines_if:
  assumes "c \<Longrightarrow> refines a a'" and "\<not> c \<Longrightarrow> refines b b'"
  shows "refines (if c then a else b) (if c then a' else b')"
  using assms by simp

lemma refines_bind:
  assumes "refines m m'" and "\<And>v. m' = Inr v \<Longrightarrow> refines (f v) (f' v)"
  shows "refines (bind_err m f) (bind_err m' f')"
proof (cases m)
  case (Inl e)
  from assms(1) consider "m = m'" | fd where "m = Inl (Undefined_fd fd)"
    by (auto simp add: refines_def)
  then show ?thesis
  proof cases
    case 1
    then have "m' = Inl e" using Inl by simp
    then show ?thesis using Inl by (simp add: refines_refl)
  next
    case 2
    then show ?thesis by (simp add: refines_undefined)
  qed
next
  case (Inr v)
  then have "m' = Inr v" using assms(1) by (auto simp add: refines_def)
  then show ?thesis using Inr assms(2) by simp
qed

lemma stage1_loop_refines: "refines (stage1_loop sys g is acc) (stage1_loop_sets g is acc)"
proof (induction "is" arbitrary: acc)
  case Nil
  then show ?case by (simp add: refines_refl)
next
  case (Cons i "is")
  obtain r1 w1 m where acc: "acc = (r1, w1, m)" by (cases acc)
  show ?case
  proof (cases "valid_socket i g")
    case (Inl e)
    then show ?thesis by (simp add: acc refines_refl)
  next
    case (Inr v)
    show ?thesis
    proof (cases v)
      case False
      then show ?thesis using Inr Cons.IH by (simp add: acc)
    next
      case True
      show ?thesis
      proof (cases "fd_in_range sys (conn_in g ! i)")
        case a: True
        show ?thesis
        proof (cases "fd_in_range sys (conn_out g ! i)")
          case True
          then show ?thesis using Inr \<open>v\<close> a Cons.IH by (simp add: acc FD_in_range)
        next
          case False
          then show ?thesis using Inr \<open>v\<close> a
            by (simp add: acc FD_in_range FD_out_of_range refines_undefined)
        qed
      next
        case False
        then show ?thesis using Inr \<open>v\<close>
          by (simp add: acc FD_out_of_range refines_undefined)
      qed
    qed
  qed
qed

lemma stage1_refines: "refines (stage1 sys g) (stage1_sets sys g)"
  unfolding stage1_def stage1_sets_def
  by (rule refines_bind [OF stage1_loop_refines]) (rule refines_refl)

lemma stage2_slot_refines:
  "refines (stage2_slot sys g r1 w1 i acc) (Inr (stage2_slot_sets g r1 w1 i acc))"
proof -
  obtain r2 w2 m where acc: "acc = (r2, w2, m)" by (cases acc)
  show ?thesis
    by (cases "fd_in_range sys (conn_in g ! i)"; cases "fd_in_range sys (conn_out g ! i)")
      (simp_all add: acc stage2_slot_def stage2_slot_sets_def FD_in_range FD_out_of_range
        Let_def refines_refl refines_undefined)
qed

lemma stage2_loop_refines:
  "refines (stage2_loop sys g r1 w1 is acc) (stage2_loop_sets g r1 w1 is acc)"
proof (induction "is" arbitrary: acc)
  case Nil
  then show ?case by (simp add: refines_refl)
next
  case (Cons i "is")
  show ?case
  proof (cases "valid_socket i g")
    case (Inl e)
    then show ?thesis by (simp add: refines_refl)
  next
    case (Inr v)
    show ?thesis
    proof (cases v)
      case False
      then show ?thesis using Inr Cons.IH by simp
    next
      case True
      have "refines (bind_err (stage2_slot sys g r1 w1 i acc) (stage2_loop sys g r1 w1 is))
              (bind_err (Inr (stage2_slot_sets g r1 w1 i acc)) (stage2_loop_sets g r1 w1 is))"
        by (rule refines_bind [OF stage2_slot_refines]) (rule Cons.IH)
      then show ?thesis using Inr True by simp
    qed
  qed
qed

lemma stage2_interest_refines:
  "refines (stage2_interest sys g r1 w1) (stage2_interest_sets g r1 w1)"
proof -
  have "refines (stage2_init sys g) (Inr (stage2_init_sets g))"
    by (cases "fd_in_range sys (sockin g)")
      (simp_all add: stage2_init_def stage2_init_sets_def FD_in_range FD_out_of_range
        refines_refl refines_undefined)
  from refines_bind [OF this stage2_loop_refines]
  show ?thesis by (simp add: stage2_interest_def stage2_interest_sets_def)
qed

lemma admit_refines: "refines (admit sys r2 g) (admit_sets sys r2 g)"
  by (cases "fd_in_range sys (sockin g)")
    (simp_all add: admit_def admit_sets_def FD_in_range FD_out_of_range refines_refl
      refines_undefined)

lemma merge_loop_refines:
  "refines (merge_loop sys r1 w1 is (r2, w2)) (Inr (r2 \<union> (r1 \<inter> set is), w2 \<union> (w1 \<inter> set is)))"
proof (induction "is" arbitrary: r2 w2)
  case Nil
  then show ?case by (simp add: refines_refl)
next
  case (Cons i "is")
  show ?case
  proof (cases "fd_in_range sys i")
    case False
    then show ?thesis by (simp add: FD_out_of_range refines_undefined)
  next
    case True
    have r: "(if i \<in> r1 then insert i r2 else r2) \<union> (r1 \<inter> set is) = r2 \<union> (r1 \<inter> set (i # is))"
      by auto
    have w: "(if i \<in> w1 then insert i w2 else w2) \<union> (w1 \<inter> set is) = w2 \<union> (w1 \<inter> set (i # is))"
      by auto
    have "merge_loop sys r1 w1 (i # is) (r2, w2) =
            merge_loop sys r1 w1 is
              (if i \<in> r1 then insert i r2 else r2, if i \<in> w1 then insert i w2 else w2)"
      using True by (simp add: FD_in_range)
    then show ?thesis
      using Cons.IH [of "if i \<in> r1 then insert i r2 else r2" "if i \<in> w1 then insert i w2 else w2"]
      by (simp only: r w)
  qed
qed

lemma merge_refines:
  "refines (merge_loop sys r1 w1 [0 .. m] (r2, w2))
     (Inr (r2 \<union> (r1 \<inter> {0 .. m}), w2 \<union> (w1 \<inter> {0 .. m})))"
  using merge_loop_refines [of sys r1 w1 "[0 .. m]" r2 w2] by simp

lemma dispatch_flush_refines:
  "refines (dispatch_flush sys i d st) (Inr (dispatch_flush_sets sys i d st))"
proof -
  obtain g w2 where st: "st = (g, w2)" by (cases st)
  show ?thesis
    by (cases "fd_in_range sys (conn_of d g ! i)")
      (simp_all add: st dispatch_flush_def dispatch_flush_sets_def FD_in_range FD_out_of_range
        refines_refl refines_undefined)
qed

lemma dispatch_bounce_refines:
  "refines (dispatch_bounce sys r2 i d st) (dispatch_bounce_sets sys r2 i d st)"
proof -
  obtain g w2 where st: "st = (g, w2)" by (cases st)
  define src where "src = (if d = OUT then conn_in g ! i else conn_out g ! i)"
  define dest where "dest = (if d = OUT then conn_out g ! i else conn_in g ! i)"
  have "refines
     (if v then
        bind_err (FD_ISSET sys src r2) (\<lambda>readable.
          if readable then
            bind_err (FD_ISSET sys dest w2) (\<lambda>writable.
              if writable then X else Inr (g, w2))
          else Inr (g, w2))
      else Inr (g, w2))
     (if v \<and> src \<in> r2 \<and> dest \<in> w2 then X else Inr (g, w2))" for v X
    by (cases "fd_in_range sys src"; cases "fd_in_range sys dest")
      (simp_all add: FD_in_range FD_out_of_range refines_refl refines_undefined)
  then show ?thesis
    unfolding dispatch_bounce_def dispatch_bounce_sets_def st prod.case Let_def
      src_def [symmetric] dest_def [symmetric]
    by (intro refines_bind refines_refl)
qed

lemma dispatch_slot_refines:
  "refines (dispatch_slot sys r2 i st) (dispatch_slot_sets sys r2 i st)"
proof -
  have "refines (dispatch_slot sys r2 i st)
          (bind_err (Inr (dispatch_flush_sets sys i IN st)) (\<lambda>st1.
           bind_err (Inr (dispatch_flush_sets sys i OUT st1)) (\<lambda>st2.
           bind_err (dispatch_bounce_sets sys r2 i OUT st2) (dispatch_bounce_sets sys r2 i IN))))"
    unfolding dispatch_slot_def
    by (intro refines_bind dispatch_flush_refines dispatch_bounce_refines)
  then show ?thesis by (simp add: dispatch_slot_sets_def)
qed

lemma dispatch_loop_refines:
  "refines (dispatch_loop sys r2 is st) (dispatch_loop_sets sys r2 is st)"
proof (induction "is" arbitrary: st)
  case Nil
  then show ?case by (simp add: refines_refl)
next
  case (Cons i "is")
  show ?case
    unfolding dispatch_loop.simps dispatch_loop_sets.simps
    by (rule refines_bind [OF dispatch_slot_refines]) (rule Cons.IH)
qed

lemma poll_conn_refines: "refines (poll_conn sys g) (poll_conn_sets sys g)"
proof -
  have "refines
      (bind_err (admit sys r2 g) (\<lambda>g1.
         bind_err (merge_loop sys r1 w1 [0 .. m] (r2, w2)) (\<lambda>merged.
           case merged of (r2m, w2m) \<Rightarrow>
             bind_err (dispatch_loop sys r2m [0 ..< nat (max_connections g1)] (g1, w2m))
               (\<lambda>st. Inr (fst st)))))
      (bind_err (admit_sets sys r2 g) (\<lambda>g1.
         bind_err (Inr (r2 \<union> (r1 \<inter> {0 .. m}), w2 \<union> (w1 \<inter> {0 .. m}))) (\<lambda>merged.
           case merged of (r2m, w2m) \<Rightarrow>
             bind_err (dispatch_loop_sets sys r2m [0 ..< nat (max_connections g1)] (g1, w2m))
               (\<lambda>st. Inr (fst st)))))" for r1 w1 r2 w2 m
    by (intro refines_bind admit_refines merge_refines)
      (auto intro!: refines_bind dispatch_loop_refines refines_refl)
  then have tail: "refines
      (bind_err (admit sys r2 g) (\<lambda>g1.
         bind_err (merge_loop sys r1 w1 [0 .. m] (r2, w2)) (\<lambda>merged.
           case merged of (r2m, w2m) \<Rightarrow>
             bind_err (dispatch_loop sys r2m [0 ..< nat (max_connections g1)] (g1, w2m))
               (\<lambda>st. Inr (fst st)))))
      (bind_err (admit_sets sys r2 g) (\<lambda>g1.
         bind_err
           (dispatch_loop_sets sys (r2 \<union> (r1 \<inter> {0 .. m})) [0 ..< nat (max_connections g1)]
              (g1, w2 \<union> (w1 \<inter> {0 .. m})))
           (\<lambda>st. Inr (fst st))))" for r1 w1 r2 w2 m
    by simp
  show ?thesis
    unfolding poll_conn_def poll_conn_sets_def Let_def
    apply (rule refines_bind [OF stage1_refines])
    apply (simp only: split_paired_all prod.case)
    apply (rule refines_bind [OF stage2_interest_refines])
    apply (simp only: split_paired_all prod.case)
    apply (intro refines_if refines_refl tail)
    done
qed

lemma poll_conn_sets_Inr: "poll_conn sys g = Inr g' \<Longrightarrow> poll_conn_sets sys g = Inr g'"
  using refines_Inr [OF poll_conn_refines] .

lemma stage2_interest_sets_Inr:
  "stage2_interest sys g r1 w1 = Inr acc \<Longrightarrow> stage2_interest_sets g r1 w1 = Inr acc"
  using refines_Inr [OF stage2_interest_refines] .

subsection \<open>The operations keep the backlog invariant\<close>

lemmas dir_defs = conn_of_def backlog_of_def backlog_size_of_def backlog_pos_of_def
  set_backlog_def set_backlog_size_def set_backlog_pos_def

lemma slot_inv_cong:
  "slot_eq g g' k \<Longrightarrow> slot_inv g' k = slot_inv g k"
  by (simp add: slot_eq_def slot_inv_def backlog_ok_def dir_defs)

lemma kill_wf: "wf_arrays g \<Longrightarrow> wf_arrays (kill_connection n g)"
  by (simp add: wf_arrays_def kill_connection_def)

lemma kill_max [simp]: "max_connections (kill_connection n g) = max_connections g"
  by (simp add: kill_connection_def)

lemma kill_frame: "k \<noteq> n \<Longrightarrow> slot_eq g (kill_connection n g) k"
  by (simp add: slot_eq_def kill_connection_def)

lemma kill_slot_inv:
  "wf_arrays g \<Longrightarrow> n < nat (max_connections g) \<Longrightarrow> slot_inv (kill_connection n g) n"
  by (simp add: slot_inv_def backlog_ok_def dir_defs kill_connection_def wf_arrays_def BACKLOG_SIZE_def)

lemma kill_inv: "table_inv g \<Longrightarrow> n < nat (max_connections g) \<Longrightarrow> table_inv (kill_connection n g)"
  unfolding table_inv_def
  by (metis kill_wf kill_max kill_frame kill_slot_inv slot_inv_cong)

lemma flush_wf: "wf_arrays g \<Longrightarrow> wf_arrays (flush_backlog n dir sent g)"
  by (cases dir) (simp_all add: wf_arrays_def flush_backlog_def kill_connection_def dir_defs Let_def)

lemma flush_max [simp]: "max_connections (flush_backlog n dir sent g) = max_connections g"
  by (cases dir) (simp_all add: flush_backlog_def kill_connection_def dir_defs Let_def)

lemma flush_frame: "k \<noteq> n \<Longrightarrow> slot_eq g (flush_backlog n dir sent g) k"
  by (cases dir) (simp_all add: slot_eq_def flush_backlog_def kill_connection_def dir_defs Let_def)

lemma flush_slot_inv:
  assumes "wf_arrays g" "n < nat (max_connections g)" "slot_inv g n"
    and "sent \<le> backlog_size_of dir g ! n"
  shows "slot_inv (flush_backlog n dir sent g) n"
  using assms
  by (cases dir)
     (auto simp add: slot_inv_def backlog_ok_def dir_defs flush_backlog_def kill_connection_def
        wf_arrays_def BACKLOG_SIZE_def Let_def)

lemma flush_inv:
  "table_inv g \<Longrightarrow> n < nat (max_connections g) \<Longrightarrow> sent \<le> backlog_size_of dir g ! n \<Longrightarrow>
   table_inv (flush_backlog n dir sent g)"
  unfolding table_inv_def
  by (metis flush_wf flush_max flush_frame flush_slot_inv slot_inv_cong)

lemma add_backlog_wf: "add_backlog n dir buf bufsize g = Inr g' \<Longrightarrow> wf_arrays g \<Longrightarrow> wf_arrays g'"
  by (cases dir) (auto simp add: wf_arrays_def add_backlog_def dir_defs Let_def split: if_splits)

lemma add_backlog_max: "add_backlog n dir buf bufsize g = Inr g' \<Longrightarrow> max_connections g' = max_connections g"
  by (cases dir) (auto simp add: add_backlog_def dir_defs Let_def split: if_splits)

lemma add_backlog_frame: "add_backlog n dir buf bufsize g = Inr g' \<Longrightarrow> k \<noteq> n \<Longrightarrow> slot_eq g g' k"
  by (cases dir) (auto simp add: slot_eq_def add_backlog_def dir_defs Let_def split: if_splits)

lemma add_backlog_slot_inv:
  assumes "add_backlog n dir buf bufsize g = Inr g'" "wf_arrays g" "n < nat (max_connections g)"
    and "slot_inv g n" "conn_in g ! n \<noteq> INVALID_SOCKET" "0 < bufsize"
  shows "slot_inv g' n"
  using assms
  by (cases dir)
     (auto simp add: slot_inv_def backlog_ok_def dir_defs add_backlog_def wf_arrays_def Let_def
        split: if_splits)

lemma bounce_wf: "bounce src dest n dir recvd buf sent g = Inr g' \<Longrightarrow> wf_arrays g \<Longrightarrow> wf_arrays g'"
  by (auto simp add: bounce_def Let_def wf_arrays_def kill_connection_def split: if_splits
        dest!: add_backlog_wf [unfolded wf_arrays_def])

lemma bounce_max: "bounce src dest n dir recvd buf sent g = Inr g' \<Longrightarrow> max_connections g' = max_connections g"
  by (auto simp add: bounce_def Let_def split: if_splits dest!: add_backlog_max)

lemma trace_upd_slot_eq [simp]: "slot_eq (g\<lparr>trace := t\<rparr>) g' k = slot_eq g g' k"
  "slot_eq g (g'\<lparr>trace := t\<rparr>) k = slot_eq g g' k"
  by (simp_all add: slot_eq_def)

lemma bounce_frame: "bounce src dest n dir recvd buf sent g = Inr g' \<Longrightarrow> k \<noteq> n \<Longrightarrow> slot_eq g g' k"
  by (auto simp add: bounce_def Let_def split: if_splits dest!: add_backlog_frame [where k = k]
        intro: kill_frame) (auto simp add: slot_eq_def kill_connection_def)

lemma trace_upd_slot_inv [simp]: "slot_inv (g\<lparr>trace := t\<rparr>) k = slot_inv g k"
  by (simp add: slot_inv_def backlog_ok_def dir_defs)

lemma trace_upd_wf [simp]: "wf_arrays (g\<lparr>trace := t\<rparr>) = wf_arrays g"
  by (simp add: wf_arrays_def)

lemma add_backlog_fits:
  "backlog_pos_of dir g ! n + backlog_size_of dir g ! n + bufsize \<le> BACKLOG_SIZE \<Longrightarrow>
   \<exists>g'. add_backlog n dir buf bufsize g = Inr g'"
  by (simp add: add_backlog_def Let_def)

lemma bounce_slot_inv:
  assumes "wf_arrays g" "n < nat (max_connections g)" "slot_inv g n"
    and "conn_in g ! n \<noteq> INVALID_SOCKET" "backlog_size_of dir g ! n = 0"
    and "recvd \<le> BACKLOG_SIZE"
  shows "\<exists>g'. bounce src dest n dir recvd buf sent g = Inr g' \<and> slot_inv g' n"
proof -
  let ?g0 = "g\<lparr>trace := trace g @ [Ev_bounce n dir]\<rparr>"
  have wf0: "wf_arrays ?g0" and inv0: "slot_inv ?g0 n" using assms by simp_all
  have pos0: "backlog_pos_of dir g ! n = 0"
    using assms(3,5) by (cases dir) (auto simp add: slot_inv_def backlog_ok_def)
  show ?thesis
  proof (cases "recvd < 1 \<or> sent < 1")
    case True
    then have "bounce src dest n dir recvd buf sent g = Inr (kill_connection n ?g0)"
      by (auto simp add: bounce_def Let_def)
    moreover have "slot_inv (kill_connection n ?g0) n"
      using kill_slot_inv [OF wf0] assms(2) by simp
    ultimately show ?thesis by simp
  next
    case False
    show ?thesis
    proof (cases "sent < recvd")
      case part: True
      have fits: "backlog_pos_of dir ?g0 ! n + backlog_size_of dir ?g0 ! n + (recvd - sent) \<le> BACKLOG_SIZE"
        using pos0 assms(5,6) False by (cases dir) (simp_all add: dir_defs)
      from add_backlog_fits [OF fits] obtain g' where
        g': "add_backlog n dir (\<lambda>k. buf (k + nat sent)) (recvd - sent) ?g0 = Inr g'" by blast
      have "slot_inv g' n"
        using add_backlog_slot_inv [OF g' wf0 _ inv0] assms(2,4) part by simp
      moreover have "bounce src dest n dir recvd buf sent g = Inr g'"
        using False part g' by (simp add: bounce_def Let_def)
      ultimately show ?thesis by simp
    next
      case full: False
      then have "bounce src dest n dir recvd buf sent g = Inr ?g0"
        using False by (simp add: bounce_def Let_def)
      then show ?thesis using inv0 by simp
    qed
  qed
qed

lemma free_slot_Some:
  "free_slot g = Some cur \<Longrightarrow>
   cur < nat (max_connections g) \<and> conn_in g ! cur = INVALID_SOCKET \<and> conn_out g ! cur = INVALID_SOCKET"
  by (auto simp add: free_slot_def find_Some_iff)

lemma accept_wf: "accept_incoming a b c g = Inr g' \<Longrightarrow> wf_arrays g \<Longrightarrow> wf_arrays g'"
  by (auto simp add: accept_incoming_def Let_def wf_arrays_def split: if_splits option.splits)

lemma accept_max: "accept_incoming a b c g = Inr g' \<Longrightarrow> max_connections g' = max_connections g"
  by (auto simp add: accept_incoming_def Let_def split: if_splits option.splits)

lemma accept_slot_inv:
  assumes "accept_incoming a b c g = Inr g'" "wf_arrays g" "k < nat (max_connections g)" "slot_inv g k"
  shows "slot_inv g' k"
proof (cases "\<exists>cur. free_slot (g\<lparr>active_connections := active_connections g + 1\<rparr>) = Some cur \<and>
    g' = g\<lparr>active_connections := active_connections g + 1,
            conn_in := (conn_in g)[cur := a], conn_out := (conn_out g)[cur := b]\<rparr> \<and> 0 \<le> a \<and> 0 \<le> b")
  case True
  then obtain cur where cur: "free_slot (g\<lparr>active_connections := active_connections g + 1\<rparr>) = Some cur"
    and g': "g' = g\<lparr>active_connections := active_connections g + 1,
            conn_in := (conn_in g)[cur := a], conn_out := (conn_out g)[cur := b]\<rparr>"
    and ab: "0 \<le> a" "0 \<le> b" by blast
  from free_slot_Some [OF cur] have c: "cur < nat (max_connections g)"
    "conn_in g ! cur = INVALID_SOCKET" "conn_out g ! cur = INVALID_SOCKET" by simp_all
  show ?thesis
  proof (cases "k = cur")
    case True
    then show ?thesis using assms(2,4) c ab g'
      by (auto simp add: slot_inv_def backlog_ok_def dir_defs wf_arrays_def INVALID_SOCKET_def)
  next
    case False
    then show ?thesis using assms(4) g'
      by (simp add: slot_inv_def backlog_ok_def dir_defs)
  qed
next
  case False
  then have "slot_eq g g' k" using assms(1)
    by (auto simp add: accept_incoming_def Let_def slot_eq_def split: if_splits option.splits)
  then show ?thesis using assms(4) slot_inv_cong by blast
qed

lemma accept_inv: "accept_incoming a b c g = Inr g' \<Longrightarrow> table_inv g \<Longrightarrow> table_inv g'"
  unfolding table_inv_def
  by (metis accept_wf accept_max accept_slot_inv)

subsection \<open>One step of the dispatch loop\<close>

text \<open>
  From here on the loops are the loops on sets, up to the lemmas on the descriptors every
  \<^verbatim>\<open>fd_set\<close> has a bit for, which carry the results over to the program.
\<close>

lemma flush_trace:
  "trace (flush_backlog i d sent g) =
     trace g @ Ev_flush_backlog i d #
       (if sent < 1 then [Ev_closesocket (conn_in g ! i), Ev_closesocket (conn_out g ! i)] else [])"
  by (cases d) (simp_all add: flush_backlog_def kill_connection_def dir_defs Let_def)

lemma flush_killed:
  "wf_arrays g \<Longrightarrow> i < nat (max_connections g) \<Longrightarrow> sent < 1 \<Longrightarrow>
   slot_dead (flush_backlog i d sent g) i"
  by (simp add: flush_backlog_def kill_connection_def slot_dead_def wf_arrays_def Let_def)

lemma flush_kept:
  "1 \<le> sent \<Longrightarrow> slot_kept (other d) g (flush_backlog i d sent g) i"
  by (cases d) (simp_all add: flush_backlog_def slot_kept_def other_def dir_defs Let_def)

lemma flush_conn:
  "1 \<le> sent \<Longrightarrow> conn_of d' (flush_backlog i d sent g) = conn_of d' g"
  by (cases d; cases d') (simp_all add: flush_backlog_def dir_defs Let_def)

lemma bounce_trace:
  "bounce src dest i d recvd buf sent g = Inr g' \<Longrightarrow>
   trace g' = trace g @ Ev_bounce i d #
       (if recvd < 1 \<or> sent < 1 then [Ev_closesocket (conn_in g ! i), Ev_closesocket (conn_out g ! i)] else [])"
  by (cases d)
     (auto simp add: bounce_def add_backlog_def kill_connection_def dir_defs Let_def split: if_splits)

lemma bounce_killed:
  "bounce src dest i d recvd buf sent g = Inr g' \<Longrightarrow> wf_arrays g \<Longrightarrow> i < nat (max_connections g) \<Longrightarrow>
   recvd < 1 \<or> sent < 1 \<Longrightarrow> slot_dead g' i"
  by (auto simp add: bounce_def kill_connection_def slot_dead_def wf_arrays_def Let_def split: if_splits)

lemma bounce_kept:
  "bounce src dest i d recvd buf sent g = Inr g' \<Longrightarrow> 1 \<le> recvd \<Longrightarrow> 1 \<le> sent \<Longrightarrow>
   slot_kept (other d) g g' i"
  by (cases d)
     (auto simp add: bounce_def add_backlog_def slot_kept_def other_def dir_defs Let_def split: if_splits)

lemma blocked_stable:
  "blocked d g w2 i \<Longrightarrow> slot_kept d g g' i \<Longrightarrow> w2' \<subseteq> w2 \<Longrightarrow> blocked d g' w2' i"
  by (cases d) (auto simp add: blocked_def slot_kept_def slot_dead_def dir_defs)

lemma dispatch_flush_facts:
  assumes "wf_arrays g" "i < nat (max_connections g)"
  shows "\<exists>evs. flush_step_facts i d (g, w2) (dispatch_flush_sets sys i d (g, w2)) evs"
proof (cases "conn_of d g ! i \<noteq> INVALID_SOCKET \<and> backlog_size_of d g ! i \<noteq> 0 \<and> conn_of d g ! i \<in> w2")
  case False
  then have eq: "dispatch_flush_sets sys i d (g, w2) = (g, w2)"
    by (auto simp add: dispatch_flush_sets_def)
  have "blocked d g w2 i"
    using False by (cases d) (auto simp add: blocked_def slot_dead_def dir_defs)
  then have "flush_step_facts i d (g, w2) (g, w2) []"
    by (simp add: flush_step_facts_def slot_kept_def)
  then show ?thesis using eq by metis
next
  case True
  let ?sent = "flush_send_ret sys i d (backlog_size_of d g ! i)"
  let ?g' = "flush_backlog i d ?sent g"
  let ?w' = "w2 - {conn_of d g ! i}"
  let ?evs = "Ev_flush_backlog i d #
       (if ?sent < 1 then [Ev_closesocket (conn_in g ! i), Ev_closesocket (conn_out g ! i)] else [])"
  have eq: "dispatch_flush_sets sys i d (g, w2) = (?g', ?w')"
    using True by (simp add: dispatch_flush_sets_def)
  have dead_or: "slot_dead ?g' i \<or> conn_of d ?g' ! i \<notin> ?w'"
  proof (cases "?sent < 1")
    case True
    then show ?thesis using flush_killed [OF assms] by simp
  next
    case False
    then show ?thesis by (simp add: flush_conn)
  qed
  have kept: "slot_kept (other d) g ?g' i"
  proof (cases "?sent < 1")
    case True
    then show ?thesis using flush_killed [OF assms] by (simp add: slot_kept_def)
  next
    case False
    then show ?thesis by (simp add: flush_kept)
  qed
  have "flush_step_facts i d (g, w2) (?g', ?w') ?evs"
    unfolding flush_step_facts_def using dead_or kept
    by (auto simp add: flush_trace blocked_def)
  then show ?thesis using eq by metis
qed

lemma valid_socket_True: "valid_socket i g = Inr True \<longleftrightarrow> \<not> slot_dead g i"
  by (auto simp add: valid_socket_def slot_dead_def)

lemma dispatch_bounce_cases:
  assumes "dispatch_bounce_sets sys r2 i d (g, w2) = Inr st'"
  obtains (skip) "st' = (g, w2)"
  | (run) g' where "\<not> slot_dead g i" "conn_of d g ! i \<in> w2"
      "bounce (conn_of (other d) g ! i) (conn_of d g ! i) i d
         (bounce_recv_ret sys i d BACKLOG_SIZE) (bounce_recv_buf sys i d)
         (bounce_send_ret sys i d (bounce_recv_ret sys i d BACKLOG_SIZE)) g = Inr g'"
      "st' = (g', w2)"
proof (cases "valid_socket i g")
  case (Inl e)
  then show ?thesis using assms by (simp add: dispatch_bounce_sets_def)
next
  case (Inr v)
  show ?thesis
  proof (cases "v \<and> conn_of (other d) g ! i \<in> r2 \<and> conn_of d g ! i \<in> w2")
    case False
    then have "st' = (g, w2)"
      using assms Inr by (cases d) (auto simp add: dispatch_bounce_sets_def Let_def dir_defs other_def)
    then show ?thesis by (rule skip)
  next
    case True
    then have alive: "\<not> slot_dead g i" using Inr valid_socket_True by auto
    from True assms Inr obtain g' where
      "bounce (conn_of (other d) g ! i) (conn_of d g ! i) i d
         (bounce_recv_ret sys i d BACKLOG_SIZE) (bounce_recv_buf sys i d)
         (bounce_send_ret sys i d (bounce_recv_ret sys i d BACKLOG_SIZE)) g = Inr g'"
      "st' = (g', w2)"
      by (cases d) (auto simp add: dispatch_bounce_sets_def Let_def dir_defs other_def bind_err_Inr_iff)
    then show ?thesis using alive True run by blast
  qed
qed

lemma dispatch_bounce_facts:
  assumes "wf_arrays g" "i < nat (max_connections g)"
    and "dispatch_bounce_sets sys r2 i d (g, w2) = Inr st'"
  shows "\<exists>evs. bounce_step_facts i d (g, w2) st' evs"
  using assms(3)
proof (cases rule: dispatch_bounce_cases)
  case skip
  then have "bounce_step_facts i d (g, w2) st' []"
    by (simp add: bounce_step_facts_def slot_kept_def)
  then show ?thesis by metis
next
  case (run g')
  let ?recvd = "bounce_recv_ret sys i d BACKLOG_SIZE"
  let ?sent = "bounce_send_ret sys i d ?recvd"
  let ?evs = "Ev_bounce i d #
     (if ?recvd < 1 \<or> ?sent < 1
      then [Ev_closesocket (conn_in g ! i), Ev_closesocket (conn_out g ! i)] else [])"
  have kept: "slot_kept (other d) g g' i"
  proof (cases "?recvd < 1 \<or> ?sent < 1")
    case True
    then show ?thesis using bounce_killed [OF run(3) assms(1,2)] by (simp add: slot_kept_def)
  next
    case False
    then show ?thesis using bounce_kept [OF run(3)] by simp
  qed
  have "bounce_step_facts i d (g, w2) st' ?evs"
    unfolding bounce_step_facts_def using run(1,2,4) kept bounce_trace [OF run(3)]
    by auto
  then show ?thesis by metis
qed

lemma slot_eq_refl [simp]: "slot_eq g g k"
  by (simp add: slot_eq_def)

lemma dispatch_flush_shape:
  assumes "dispatch_flush_sets sys i d (g, w2) = (g', w2')"
  shows "max_connections g' = max_connections g" "wf_arrays g \<Longrightarrow> wf_arrays g'"
    "k \<noteq> i \<Longrightarrow> slot_eq g g' k"
  using assms
  by (auto simp add: dispatch_flush_sets_def flush_wf flush_frame split: if_splits)

lemma dispatch_bounce_shape:
  assumes "dispatch_bounce_sets sys r2 i d (g, w2) = Inr (g', w2')"
  shows "max_connections g' = max_connections g" "wf_arrays g \<Longrightarrow> wf_arrays g'"
    "k \<noteq> i \<Longrightarrow> slot_eq g g' k"
  using assms
  by (cases rule: dispatch_bounce_cases; auto simp add: bounce_max bounce_wf bounce_frame)+

lemma other_simps [simp]: "other IN = OUT" "other OUT = IN"
  by (simp_all add: other_def)

lemma slot_kept_alive:
  "slot_kept d g g' i \<Longrightarrow> \<not> slot_dead g' i \<Longrightarrow>
   \<not> slot_dead g i \<and> conn_in g' ! i = conn_in g ! i \<and> conn_out g' ! i = conn_out g ! i \<and>
   backlog_size_of d g' ! i = backlog_size_of d g ! i"
  by (auto simp add: slot_kept_def slot_dead_def)

lemma flush_factsD:
  assumes "flush_step_facts i d (g, w) (g', w') evs"
  shows "trace g' = trace g @ evs"
    and "Ev_bounce j d' \<notin> set evs"
    and "Ev_flush_backlog j d' \<in> set evs \<Longrightarrow> j = i \<and> d' = d"
    and "w' \<subseteq> w"
    and "slot_kept (other d) g g' i"
    and "blocked d g' w' i"
    and "Ev_flush_backlog i d \<in> set evs \<Longrightarrow> slot_dead g' i \<or> conn_of d g' ! i \<notin> w'"
    and "Ev_flush_backlog i d \<notin> set evs \<Longrightarrow> g' = g \<and> w' = w"
  using assms unfolding flush_step_facts_def fst_conv snd_conv prod.inject by blast+

lemma bounce_factsD:
  assumes "bounce_step_facts i d (g, w) (g', w') evs"
  shows "trace g' = trace g @ evs"
    and "Ev_flush_backlog j d' \<notin> set evs"
    and "Ev_bounce j d' \<in> set evs \<Longrightarrow> j = i \<and> d' = d"
    and "w' = w"
    and "slot_kept (other d) g g' i"
    and "Ev_bounce i d \<in> set evs \<Longrightarrow> \<not> slot_dead g i \<and> conn_of d g ! i \<in> w"
  using assms unfolding bounce_step_facts_def fst_conv snd_conv by blast+

lemma dispatch_slot_facts:
  assumes wf: "wf_arrays g" and i: "i < nat (max_connections g)"
    and run: "dispatch_slot_sets sys r2 i (g, w2) = Inr (g', w2')"
  shows "\<exists>evs. slot_step_facts i (g, w2) (g', w2') evs"
proof -
  obtain g1 w1 where s1: "dispatch_flush_sets sys i IN (g, w2) = (g1, w1)" by fastforce
  obtain g2 w2a where s2: "dispatch_flush_sets sys i OUT (g1, w1) = (g2, w2a)" by fastforce
  from run s1 s2 obtain g3 w3 where s3: "dispatch_bounce_sets sys r2 i OUT (g2, w2a) = Inr (g3, w3)"
    and s4: "dispatch_bounce_sets sys r2 i IN (g3, w3) = Inr (g', w2')"
    by (auto simp add: dispatch_slot_sets_def bind_err_Inr_iff)
  have wf1: "wf_arrays g1" and i1: "i < nat (max_connections g1)"
    using dispatch_flush_shape(1,2) [OF s1] wf i by simp_all
  have wf2: "wf_arrays g2" and i2: "i < nat (max_connections g2)"
    using dispatch_flush_shape(1,2) [OF s2] wf1 i1 by simp_all
  have wf3: "wf_arrays g3" and i3: "i < nat (max_connections g3)"
    using dispatch_bounce_shape(1,2) [OF s3] wf2 i2 by simp_all
  from dispatch_flush_facts [OF wf i, of IN w2 sys] s1
  obtain e1 where f1: "flush_step_facts i IN (g, w2) (g1, w1) e1" by auto
  from dispatch_flush_facts [OF wf1 i1, of OUT w1 sys] s2
  obtain e2 where f2: "flush_step_facts i OUT (g1, w1) (g2, w2a) e2" by auto
  from dispatch_bounce_facts [OF wf2 i2 s3]
  obtain e3 where f3: "bounce_step_facts i OUT (g2, w2a) (g3, w3) e3" by auto
  from dispatch_bounce_facts [OF wf3 i3 s4]
  obtain e4 where f4: "bounce_step_facts i IN (g3, w3) (g', w2') e4" by auto
  note F1 = flush_factsD [OF f1] and F2 = flush_factsD [OF f2]
    and B3 = bounce_factsD [OF f3] and B4 = bounce_factsD [OF f4]
  let ?evs = "e1 @ e2 @ e3 @ e4"
  have tr: "trace g' = trace g @ ?evs"
    using F1(1) F2(1) B3(1) B4(1) by simp
  have fl_i: "j = i" if "Ev_flush_backlog j d \<in> set ?evs" for j d
    using that F1(3) F2(3) B3(2) B4(2) by (metis Un_iff set_append)
  have bo_i: "j = i" if "Ev_bounce j d \<in> set ?evs" for j d
    using that F1(2) F2(2) B3(3) B4(3) by (metis Un_iff set_append)
  have sub: "w2' \<subseteq> w2"
    using F1(4) F2(4) B3(4) B4(4) by blast
  have out: "Ev_flush_backlog i OUT \<notin> set ?evs \<and> backlog_size_of OUT g ! i = 0"
    if b: "Ev_bounce i OUT \<in> set ?evs"
  proof -
    have "Ev_bounce i OUT \<notin> set e4" using B4(3) by blast
    with b have b3: "Ev_bounce i OUT \<in> set e3"
      using F1(2) F2(2) by simp
    then have alive2: "\<not> slot_dead g2 i" and dest2: "conn_of OUT g2 ! i \<in> w2a"
      using B3(6) by simp_all
    have nf2: "Ev_flush_backlog i OUT \<notin> set e2"
      using F2(7) alive2 dest2 by blast
    then have same: "g2 = g1" "w2a = w1" using F2(8) by simp_all
    have z2: "backlog_size_of OUT g2 ! i = 0"
      using F2(6) alive2 dest2 by (simp add: blocked_def)
    have "slot_kept OUT g g1 i" using F1(5) by simp
    then have "backlog_size_of OUT g1 ! i = backlog_size_of OUT g ! i"
      using slot_kept_alive alive2 same by blast
    then have z: "backlog_size_of OUT g ! i = 0" using z2 same by simp
    have "Ev_flush_backlog i OUT \<notin> set e1" using F1(3) by blast
    then have "Ev_flush_backlog i OUT \<notin> set ?evs"
      using nf2 B3(2) B4(2) by simp
    then show ?thesis using z by simp
  qed
  have inn: "Ev_flush_backlog i IN \<notin> set ?evs \<and> backlog_size_of IN g ! i = 0"
    if b: "Ev_bounce i IN \<in> set ?evs"
  proof -
    have "Ev_bounce i IN \<notin> set e3" using B3(3) by blast
    with b have b4: "Ev_bounce i IN \<in> set e4"
      using F1(2) F2(2) by simp
    then have alive3: "\<not> slot_dead g3 i" and dest3: "conn_of IN g3 ! i \<in> w3"
      using B4(6) by simp_all
    have k3: "slot_kept IN g2 g3 i" and w3: "w3 = w2a"
      using B3(5) B3(4) by simp_all
    have k2: "slot_kept IN g1 g2 i" and w2a: "w2a \<subseteq> w1"
      using F2(5) F2(4) by simp_all
    from slot_kept_alive [OF k3 alive3] have alive2: "\<not> slot_dead g2 i"
      and c3: "conn_in g3 ! i = conn_in g2 ! i"
      and z3: "backlog_size_of IN g3 ! i = backlog_size_of IN g2 ! i" by simp_all
    from slot_kept_alive [OF k2 alive2] have alive1: "\<not> slot_dead g1 i"
      and c2: "conn_in g2 ! i = conn_in g1 ! i"
      and z2: "backlog_size_of IN g2 ! i = backlog_size_of IN g1 ! i" by simp_all
    have dest1: "conn_of IN g1 ! i \<in> w1"
      using dest3 c3 c2 w3 w2a by (auto simp add: conn_of_def)
    have nf1: "Ev_flush_backlog i IN \<notin> set e1"
      using F1(7) alive1 dest1 by blast
    then have same: "g1 = g" "w1 = w2" using F1(8) by simp_all
    have "backlog_size_of IN g1 ! i = 0"
      using F1(6) alive1 dest1 by (simp add: blocked_def)
    then have z: "backlog_size_of IN g ! i = 0" using same by simp
    have "Ev_flush_backlog i IN \<notin> set e2" using F2(3) by blast
    then have "Ev_flush_backlog i IN \<notin> set ?evs"
      using nf1 B3(2) B4(2) by simp
    then show ?thesis using z by simp
  qed
  have excl: "Ev_flush_backlog i d \<notin> set ?evs \<and> backlog_size_of d g ! i = 0"
    if "Ev_bounce i d \<in> set ?evs" for d
    using that out inn by (cases d) blast+
  have "slot_step_facts i (g, w2) (g', w2') ?evs"
    unfolding slot_step_facts_def fst_conv snd_conv
  proof (intro conjI allI impI)
    show "trace g' = trace g @ ?evs" by (rule tr)
    show "j = i" if "Ev_flush_backlog j d \<in> set ?evs \<or> Ev_bounce j d \<in> set ?evs" for j d
      using that fl_i bo_i by blast
    show "Ev_flush_backlog i d \<notin> set ?evs" if "Ev_bounce i d \<in> set ?evs" for d
      using excl [OF that] by simp
    show "backlog_size_of d g ! i = 0" if "Ev_bounce i d \<in> set ?evs" for d
      using excl [OF that] by simp
    show "w2' \<subseteq> w2" by (rule sub)
  qed
  then show ?thesis by blast
qed

lemma slot_eq_trans: "slot_eq g g1 k \<Longrightarrow> slot_eq g1 g2 k \<Longrightarrow> slot_eq g g2 k"
  by (simp add: slot_eq_def)

lemma dispatch_slot_shape:
  assumes "dispatch_slot_sets sys r2 i (g, w2) = Inr (g', w2')"
  shows "max_connections g' = max_connections g" "wf_arrays g \<Longrightarrow> wf_arrays g'"
    "k \<noteq> i \<Longrightarrow> slot_eq g g' k"
proof -
  obtain g1 w1 where s1: "dispatch_flush_sets sys i IN (g, w2) = (g1, w1)" by fastforce
  obtain g2 w2a where s2: "dispatch_flush_sets sys i OUT (g1, w1) = (g2, w2a)" by fastforce
  from assms s1 s2 obtain g3 w3 where s3: "dispatch_bounce_sets sys r2 i OUT (g2, w2a) = Inr (g3, w3)"
    and s4: "dispatch_bounce_sets sys r2 i IN (g3, w3) = Inr (g', w2')"
    by (auto simp add: dispatch_slot_sets_def bind_err_Inr_iff)
  show "max_connections g' = max_connections g"
    using dispatch_flush_shape(1) [OF s1] dispatch_flush_shape(1) [OF s2]
      dispatch_bounce_shape(1) [OF s3] dispatch_bounce_shape(1) [OF s4] by simp
  show "wf_arrays g \<Longrightarrow> wf_arrays g'"
    using dispatch_flush_shape(2) [OF s1] dispatch_flush_shape(2) [OF s2]
      dispatch_bounce_shape(2) [OF s3] dispatch_bounce_shape(2) [OF s4] by blast
  show "k \<noteq> i \<Longrightarrow> slot_eq g g' k"
    using dispatch_flush_shape(3) [OF s1] dispatch_flush_shape(3) [OF s2]
      dispatch_bounce_shape(3) [OF s3] dispatch_bounce_shape(3) [OF s4]
    by (blast intro: slot_eq_trans)
qed

subsection \<open>The invariant through the dispatch loop\<close>

lemma inv_slot: "table_inv g \<Longrightarrow> i < nat (max_connections g) \<Longrightarrow> slot_inv g i"
  by (simp add: table_inv_def)

lemma inv_wf: "table_inv g \<Longrightarrow> wf_arrays g"
  by (simp add: table_inv_def)

lemma inv_frame:
  assumes "table_inv g" "wf_arrays g'" "max_connections g' = max_connections g"
    and "slot_inv g' i" "\<And>k. k \<noteq> i \<Longrightarrow> slot_eq g g' k"
  shows "table_inv g'"
  unfolding table_inv_def using assms
  by (metis inv_slot slot_inv_cong)

lemma dispatch_flush_inv:
  assumes "table_inv g" "i < nat (max_connections g)" "syscalls_ok sys"
    and "dispatch_flush_sets sys i d (g, w2) = (g', w2')"
  shows "table_inv g'"
proof (cases "g' = flush_backlog i d (flush_send_ret sys i d (backlog_size_of d g ! i)) g")
  case True
  have "flush_send_ret sys i d (backlog_size_of d g ! i) \<le> backlog_size_of d g ! i"
    using assms(3) by (simp add: syscalls_ok_def)
  from flush_inv [OF assms(1,2) this] show ?thesis using True by simp
next
  case False
  then have "g' = g" using assms(4) by (auto simp add: dispatch_flush_sets_def split: if_splits)
  then show ?thesis using assms(1) by simp
qed

lemma inv_valid_socket:
  "table_inv g \<Longrightarrow> i < nat (max_connections g) \<Longrightarrow> valid_socket i g = Inr (\<not> slot_dead g i)"
  by (drule (1) inv_slot) (auto simp add: slot_inv_def valid_socket_def slot_dead_def)

lemma dispatch_bounce_inv:
  assumes "table_inv g" "i < nat (max_connections g)" "syscalls_ok sys" "blocked d g w2 i"
  shows "\<exists>g'. dispatch_bounce_sets sys r2 i d (g, w2) = Inr (g', w2) \<and> table_inv g'"
proof (cases "\<not> slot_dead g i \<and> conn_of (other d) g ! i \<in> r2 \<and> conn_of d g ! i \<in> w2")
  case False
  then have "dispatch_bounce_sets sys r2 i d (g, w2) = Inr (g, w2)"
    using inv_valid_socket [OF assms(1,2)]
    by (cases d) (auto simp add: dispatch_bounce_sets_def Let_def dir_defs)
  then show ?thesis using assms(1) by simp
next
  case True
  let ?recvd = "bounce_recv_ret sys i d BACKLOG_SIZE"
  let ?sent = "bounce_send_ret sys i d ?recvd"
  let ?b = "bounce (conn_of (other d) g ! i) (conn_of d g ! i) i d ?recvd (bounce_recv_buf sys i d) ?sent g"
  have z: "backlog_size_of d g ! i = 0" using True assms(4) by (simp add: blocked_def)
  have alive: "conn_in g ! i \<noteq> INVALID_SOCKET" using True by (simp add: slot_dead_def)
  have r: "?recvd \<le> BACKLOG_SIZE" using assms(3) by (simp add: syscalls_ok_def)
  from bounce_slot_inv [OF inv_wf [OF assms(1)] assms(2) inv_slot [OF assms(1,2)] alive z r]
  obtain g' where b: "?b = Inr g'" and si: "slot_inv g' i" by blast
  have "table_inv g'"
    using inv_frame [OF assms(1) bounce_wf [OF b inv_wf [OF assms(1)]] bounce_max [OF b] si]
      bounce_frame [OF b] by blast
  moreover have "dispatch_bounce_sets sys r2 i d (g, w2) = Inr (g', w2)"
    using True b inv_valid_socket [OF assms(1,2)]
    by (cases d) (auto simp add: dispatch_bounce_sets_def Let_def dir_defs)
  ultimately show ?thesis by blast
qed

lemma dispatch_slot_inv:
  assumes table_inv: "table_inv g" and i: "i < nat (max_connections g)" and ok: "syscalls_ok sys"
  shows "\<exists>g' w2'. dispatch_slot_sets sys r2 i (g, w2) = Inr (g', w2') \<and> table_inv g'"
proof -
  obtain g1 w1 where s1: "dispatch_flush_sets sys i IN (g, w2) = (g1, w1)" by fastforce
  obtain g2 w2a where s2: "dispatch_flush_sets sys i OUT (g1, w1) = (g2, w2a)" by fastforce
  have inv1: "table_inv g1" and i1: "i < nat (max_connections g1)"
    using dispatch_flush_inv [OF table_inv i ok s1] dispatch_flush_shape(1) [OF s1] i by simp_all
  have inv2: "table_inv g2" and i2: "i < nat (max_connections g2)"
    using dispatch_flush_inv [OF inv1 i1 ok s2] dispatch_flush_shape(1) [OF s2] i1 by simp_all
  from dispatch_flush_facts [OF inv_wf [OF table_inv] i, of IN w2 sys] s1
  obtain e1 where f1: "flush_step_facts i IN (g, w2) (g1, w1) e1" by auto
  from dispatch_flush_facts [OF inv_wf [OF inv1] i1, of OUT w1 sys] s2
  obtain e2 where f2: "flush_step_facts i OUT (g1, w1) (g2, w2a) e2" by auto
  note F1 = flush_factsD [OF f1] and F2 = flush_factsD [OF f2]
  have bl_out2: "blocked OUT g2 w2a i" using F2(6) .
  have bl_in2: "blocked IN g2 w2a i"
    using blocked_stable [OF F1(6) _ F2(4)] F2(5) by simp
  from dispatch_bounce_inv [OF inv2 i2 ok bl_out2]
  obtain g3 where s3: "dispatch_bounce_sets sys r2 i OUT (g2, w2a) = Inr (g3, w2a)" and inv3: "table_inv g3"
    by blast
  have i3: "i < nat (max_connections g3)"
    using dispatch_bounce_shape(1) [OF s3] i2 by simp
  from dispatch_bounce_facts [OF inv_wf [OF inv2] i2 s3]
  obtain e3 where f3: "bounce_step_facts i OUT (g2, w2a) (g3, w2a) e3" by auto
  note B3 = bounce_factsD [OF f3]
  have bl_in3: "blocked IN g3 w2a i"
    using blocked_stable [OF bl_in2 _ subset_refl] B3(5) by simp
  from dispatch_bounce_inv [OF inv3 i3 ok bl_in3]
  obtain g4 where s4: "dispatch_bounce_sets sys r2 i IN (g3, w2a) = Inr (g4, w2a)" and inv4: "table_inv g4"
    by blast
  have "dispatch_slot_sets sys r2 i (g, w2) = Inr (g4, w2a)"
    using s1 s2 s3 s4 by (simp add: dispatch_slot_sets_def)
  then show ?thesis using inv4 by blast
qed

lemma dispatch_loop_inv:
  assumes "table_inv g" "syscalls_ok sys" "\<forall>i \<in> set is. i < nat (max_connections g)"
  shows "\<exists>g' w2'. dispatch_loop_sets sys r2 is (g, w2) = Inr (g', w2') \<and> table_inv g' \<and>
           max_connections g' = max_connections g"
  using assms
proof (induction "is" arbitrary: g w2)
  case Nil
  then show ?case by simp
next
  case (Cons i "is")
  from Cons.prems have i: "i < nat (max_connections g)" by simp
  from dispatch_slot_inv [OF Cons.prems(1) i Cons.prems(2)]
  obtain g1 w1 where s: "dispatch_slot_sets sys r2 i (g, w2) = Inr (g1, w1)" and inv1: "table_inv g1"
    by blast
  have m: "max_connections g1 = max_connections g" using dispatch_slot_shape(1) [OF s] .
  then have "\<forall>i \<in> set is. i < nat (max_connections g1)" using Cons.prems(3) by simp
  from Cons.IH [OF inv1 Cons.prems(2) this]
  obtain g' w2' where "dispatch_loop_sets sys r2 is (g1, w1) = Inr (g', w2')" "table_inv g'"
    "max_connections g' = max_connections g1" by blast
  then show ?case using s m by simp
qed

subsection \<open>The trace of the dispatch loop\<close>

lemma slot_factsD:
  assumes "slot_step_facts i (g, w) (g', w') evs"
  shows "trace g' = trace g @ evs"
    and "Ev_flush_backlog j d \<in> set evs \<Longrightarrow> j = i"
    and "Ev_bounce j d \<in> set evs \<Longrightarrow> j = i"
    and "Ev_bounce i d \<in> set evs \<Longrightarrow> Ev_flush_backlog i d \<notin> set evs"
    and "Ev_bounce i d \<in> set evs \<Longrightarrow> backlog_size_of d g ! i = 0"
  using assms unfolding slot_step_facts_def fst_conv snd_conv by blast+

lemma loop_factsD:
  assumes "loop_facts is g g' evs"
  shows "trace g' = trace g @ evs"
    and "Ev_flush_backlog j d \<in> set evs \<Longrightarrow> j \<in> set is"
    and "Ev_bounce j d \<in> set evs \<Longrightarrow> j \<in> set is"
    and "Ev_bounce j d \<in> set evs \<Longrightarrow> Ev_flush_backlog j d \<notin> set evs"
    and "Ev_bounce j d \<in> set evs \<Longrightarrow> backlog_size_of d g ! j = 0"
  using assms unfolding loop_facts_def by blast+

lemma slot_eq_size: "slot_eq g g' k \<Longrightarrow> backlog_size_of d g' ! k = backlog_size_of d g ! k"
  by (cases d) (simp_all add: slot_eq_def dir_defs)

lemma dispatch_loop_shape:
  assumes "dispatch_loop_sets sys r2 is (g, w2) = Inr (g', w2')"
  shows "max_connections g' = max_connections g \<and> (wf_arrays g \<longrightarrow> wf_arrays g') \<and>
         (\<forall>k. k \<notin> set is \<longrightarrow> slot_eq g g' k)"
  using assms
proof (induction "is" arbitrary: g w2)
  case Nil
  then show ?case by simp
next
  case (Cons i "is")
  from Cons.prems obtain g1 w1 where s: "dispatch_slot_sets sys r2 i (g, w2) = Inr (g1, w1)"
    and l: "dispatch_loop_sets sys r2 is (g1, w1) = Inr (g', w2')"
    by (auto simp add: bind_err_Inr_iff)
  note S = dispatch_slot_shape [OF s] and L = Cons.IH [OF l]
  show ?case
  proof (intro conjI allI impI)
    show "max_connections g' = max_connections g" using S(1) L by simp
    show "wf_arrays g'" if "wf_arrays g" using S(2) L that by blast
    show "slot_eq g g' k" if "k \<notin> set (i # is)" for k
    proof -
      from that have "k \<noteq> i" "k \<notin> set is" by simp_all
      then show ?thesis using S(3) L slot_eq_trans by blast
    qed
  qed
qed

lemma dispatch_loop_facts:
  assumes "wf_arrays g" "distinct is" "\<forall>i \<in> set is. i < nat (max_connections g)"
    and "dispatch_loop_sets sys r2 is (g, w2) = Inr (g', w2')"
  shows "\<exists>evs. loop_facts is g g' evs"
  using assms
proof (induction "is" arbitrary: g w2)
  case Nil
  then have "loop_facts [] g g' []" by (simp add: loop_facts_def)
  then show ?case by blast
next
  case (Cons i "is")
  from Cons.prems(4) obtain g1 w1 where s: "dispatch_slot_sets sys r2 i (g, w2) = Inr (g1, w1)"
    and l: "dispatch_loop_sets sys r2 is (g1, w1) = Inr (g', w2')"
    by (auto simp add: bind_err_Inr_iff)
  from Cons.prems have i: "i < nat (max_connections g)" and ni: "i \<notin> set is"
    and dis: "distinct is" by simp_all
  note S = dispatch_slot_shape [OF s]
  have wf1: "wf_arrays g1" using S(2) Cons.prems(1) by simp
  have b1: "\<forall>i \<in> set is. i < nat (max_connections g1)" using S(1) Cons.prems(3) by simp
  from dispatch_slot_facts [OF Cons.prems(1) i s]
  obtain e1 where f1: "slot_step_facts i (g, w2) (g1, w1) e1" by blast
  from Cons.IH [OF wf1 dis b1 l]
  obtain e2 where f2: "loop_facts is g1 g' e2" by blast
  note F1 = slot_factsD [OF f1] and F2 = loop_factsD [OF f2]
  let ?evs = "e1 @ e2"
  have "loop_facts (i # is) g g' ?evs"
    unfolding loop_facts_def
  proof (intro conjI allI impI)
    show "trace g' = trace g @ ?evs" using F1(1) F2(1) by simp
    show "j \<in> set (i # is)"
      if "Ev_flush_backlog j d \<in> set ?evs \<or> Ev_bounce j d \<in> set ?evs" for j d
      using that F1(2,3) F2(2,3) by auto
    show "Ev_flush_backlog j d \<notin> set ?evs" if b: "Ev_bounce j d \<in> set ?evs" for j d
    proof (cases "Ev_bounce j d \<in> set e1")
      case True
      then have j: "j = i" using F1(3) by blast
      then have "Ev_flush_backlog j d \<notin> set e1" using True F1(4) by blast
      moreover have "Ev_flush_backlog j d \<notin> set e2" using F2(2) j ni by blast
      ultimately show ?thesis by simp
    next
      case False
      then have in2: "Ev_bounce j d \<in> set e2" using b by simp
      then have "j \<in> set is" using F2(3) by blast
      then have "j \<noteq> i" using ni by blast
      then have "Ev_flush_backlog j d \<notin> set e1" using F1(2) by blast
      moreover have "Ev_flush_backlog j d \<notin> set e2" using F2(4) in2 by blast
      ultimately show ?thesis by simp
    qed
    show "backlog_size_of d g ! j = 0" if b: "Ev_bounce j d \<in> set ?evs" for j d
    proof (cases "Ev_bounce j d \<in> set e1")
      case True
      then have j: "j = i" using F1(3) by blast
      then show ?thesis using True F1(5) by blast
    next
      case False
      then have in2: "Ev_bounce j d \<in> set e2" using b by simp
      then have "j \<in> set is" using F2(3) by blast
      then have "j \<noteq> i" using ni by blast
      then have "backlog_size_of d g1 ! j = backlog_size_of d g ! j"
        using S(3) slot_eq_size by blast
      then show ?thesis using F2(5) in2 by simp
    qed
  qed
  then show ?case by blast
qed

subsection \<open>One iteration\<close>

lemma poll_conn_unfold:
  "poll_conn_sets sys g =
     bind_err (stage1_sets sys g) (\<lambda>s1.
       bind_err (stage2_interest_sets g (fst s1) (snd s1)) (\<lambda>acc.
         if select2_ret sys = 0 then Inl Err_select_timeout
         else if select2_ret sys = - 1 then Inl Err_select2
         else
           bind_err (admit_sets sys (fst acc \<inter> select2_readable sys) g) (\<lambda>g1.
             bind_err
               (dispatch_loop_sets sys
                  (fst acc \<inter> select2_readable sys \<union> (fst s1 \<inter> {0 .. snd (snd acc)}))
                  [0 ..< nat (max_connections g1)]
                  (g1, fst (snd acc) \<inter> select2_writable sys \<union> (snd s1 \<inter> {0 .. snd (snd acc)})))
               (\<lambda>st. Inr (fst st)))))"
  unfolding poll_conn_sets_def Let_def
  by (auto simp add: bind_err_def split: sum.splits prod.splits)

lemma poll_conn_Inr:
  assumes "poll_conn_sets sys g = Inr g'"
  obtains r1 w1 r2i w2i max_fd g1 w2' where
    "stage1_sets sys g = Inr (r1, w1)"
    "stage2_interest_sets g r1 w1 = Inr (r2i, w2i, max_fd)"
    "admit_sets sys (r2i \<inter> select2_readable sys) g = Inr g1"
    "dispatch_loop_sets sys (r2i \<inter> select2_readable sys \<union> (r1 \<inter> {0 .. max_fd}))
       [0 ..< nat (max_connections g1)]
       (g1, w2i \<inter> select2_writable sys \<union> (w1 \<inter> {0 .. max_fd})) = Inr (g', w2')"
proof -
  from assms obtain s1 where a: "stage1_sets sys g = Inr s1"
    and r1: "bind_err (stage2_interest_sets g (fst s1) (snd s1)) (\<lambda>acc.
         if select2_ret sys = 0 then Inl Err_select_timeout
         else if select2_ret sys = - 1 then Inl Err_select2
         else
           bind_err (admit_sets sys (fst acc \<inter> select2_readable sys) g) (\<lambda>g1.
             bind_err
               (dispatch_loop_sets sys
                  (fst acc \<inter> select2_readable sys \<union> (fst s1 \<inter> {0 .. snd (snd acc)}))
                  [0 ..< nat (max_connections g1)]
                  (g1, fst (snd acc) \<inter> select2_writable sys \<union> (snd s1 \<inter> {0 .. snd (snd acc)})))
               (\<lambda>st. Inr (fst st)))) = Inr g'"
    unfolding poll_conn_unfold bind_err_Inr_iff by blast
  from r1 obtain acc where b: "stage2_interest_sets g (fst s1) (snd s1) = Inr acc"
    and r2: "(if select2_ret sys = 0 then Inl Err_select_timeout
         else if select2_ret sys = - 1 then Inl Err_select2
         else
           bind_err (admit_sets sys (fst acc \<inter> select2_readable sys) g) (\<lambda>g1.
             bind_err
               (dispatch_loop_sets sys
                  (fst acc \<inter> select2_readable sys \<union> (fst s1 \<inter> {0 .. snd (snd acc)}))
                  [0 ..< nat (max_connections g1)]
                  (g1, fst (snd acc) \<inter> select2_writable sys \<union> (snd s1 \<inter> {0 .. snd (snd acc)})))
               (\<lambda>st. Inr (fst st)))) = Inr g'"
    unfolding bind_err_Inr_iff by blast
  from r2 have r3: "bind_err (admit_sets sys (fst acc \<inter> select2_readable sys) g) (\<lambda>g1.
             bind_err
               (dispatch_loop_sets sys
                  (fst acc \<inter> select2_readable sys \<union> (fst s1 \<inter> {0 .. snd (snd acc)}))
                  [0 ..< nat (max_connections g1)]
                  (g1, fst (snd acc) \<inter> select2_writable sys \<union> (snd s1 \<inter> {0 .. snd (snd acc)})))
               (\<lambda>st. Inr (fst st))) = Inr g'"
    by (simp split: if_splits)
  from r3 obtain g1 st where c: "admit_sets sys (fst acc \<inter> select2_readable sys) g = Inr g1"
    and d: "dispatch_loop_sets sys
                  (fst acc \<inter> select2_readable sys \<union> (fst s1 \<inter> {0 .. snd (snd acc)}))
                  [0 ..< nat (max_connections g1)]
                  (g1, fst (snd acc) \<inter> select2_writable sys \<union> (snd s1 \<inter> {0 .. snd (snd acc)})) = Inr st"
    and e: "fst st = g'"
    unfolding bind_err_Inr_iff by blast
  have st: "st = (g', snd st)" using e by (cases st) simp
  show ?thesis
    using that [of "fst s1" "snd s1" "fst acc" "fst (snd acc)" "snd (snd acc)" g1 "snd st"]
      a b c d st by simp
qed

lemma admit_inv: "admit_sets sys r2 g = Inr g1 \<Longrightarrow> table_inv g \<Longrightarrow> table_inv g1"
  by (auto simp add: admit_sets_def accept_inv split: if_splits)

lemma admit_max: "admit_sets sys r2 g = Inr g1 \<Longrightarrow> max_connections g1 = max_connections g"
  by (auto simp add: admit_sets_def accept_max split: if_splits)

lemma admit_wf: "admit_sets sys r2 g = Inr g1 \<Longrightarrow> wf_arrays g \<Longrightarrow> wf_arrays g1"
  by (auto simp add: admit_sets_def accept_wf split: if_splits)

lemma accept_sizes:
  "accept_incoming a b c g = Inr g1 \<Longrightarrow> backlog_size_of d g1 = backlog_size_of d g"
  by (cases d) (auto simp add: accept_incoming_def Let_def dir_defs split: if_splits option.splits)

lemma accept_trace:
  "accept_incoming a b c g = Inr g1 \<Longrightarrow>
   \<exists>evs. trace g1 = trace g @ evs \<and> (\<forall>e \<in> set evs. \<exists>s. e = Ev_closesocket s)"
  by (auto simp add: accept_incoming_def Let_def split: if_splits option.splits)

lemma admit_facts:
  assumes "admit_sets sys r2 g = Inr g1"
  shows "backlog_size_of d g1 = backlog_size_of d g"
    and "\<exists>evs. trace g1 = trace g @ evs \<and> (\<forall>e \<in> set evs. \<exists>s. e = Ev_closesocket s)"
proof -
  show "backlog_size_of d g1 = backlog_size_of d g"
    using assms by (auto simp add: admit_sets_def accept_sizes split: if_splits)
  show "\<exists>evs. trace g1 = trace g @ evs \<and> (\<forall>e \<in> set evs. \<exists>s. e = Ev_closesocket s)"
  proof (cases "sockin g \<in> r2")
    case True
    then show ?thesis using assms accept_trace by (simp add: admit_sets_def)
  next
    case False
    then have "g1 = g" using assms by (simp add: admit_sets_def)
    then show ?thesis by simp
  qed
qed

lemma poll_conn_inv:
  assumes "poll_conn_sets sys g = Inr g'" "table_inv g" "syscalls_ok sys"
  shows "table_inv g' \<and> max_connections g' = max_connections g"
  using assms(1)
proof (cases rule: poll_conn_Inr)
  case (1 r1 w1 r2i w2i max_fd g1 w2')
  have inv1: "table_inv g1" using admit_inv [OF 1(3) assms(2)] .
  have m1: "max_connections g1 = max_connections g" using admit_max [OF 1(3)] .
  have "\<forall>i \<in> set [0 ..< nat (max_connections g1)]. i < nat (max_connections g1)" by simp
  from dispatch_loop_inv [OF inv1 assms(3) this,
      of "r2i \<inter> select2_readable sys \<union> (r1 \<inter> {0 .. max_fd})"
         "w2i \<inter> select2_writable sys \<union> (w1 \<inter> {0 .. max_fd})"]
  obtain g'' w'' where "dispatch_loop_sets sys (r2i \<inter> select2_readable sys \<union> (r1 \<inter> {0 .. max_fd}))
       [0 ..< nat (max_connections g1)]
       (g1, w2i \<inter> select2_writable sys \<union> (w1 \<inter> {0 .. max_fd})) = Inr (g'', w'')"
    and "table_inv g''" and "max_connections g'' = max_connections g1" by blast
  then show ?thesis using m1 1(4) by simp
qed

lemma poll_conn_trace:
  assumes "poll_conn_sets sys g = Inr g'" "wf_arrays g"
  shows "\<exists>evs. trace g' = trace g @ evs \<and>
           (\<forall>j d. Ev_bounce j d \<in> set evs \<longrightarrow>
              Ev_flush_backlog j d \<notin> set evs \<and> backlog_size_of d g ! j = 0 \<and>
              j < nat (max_connections g))"
  using assms(1)
proof (cases rule: poll_conn_Inr)
  case (1 r1 w1 r2i w2i max_fd g1 w2')
  have wf1: "wf_arrays g1" using admit_wf [OF 1(3) assms(2)] .
  have m1: "max_connections g1 = max_connections g" using admit_max [OF 1(3)] .
  from admit_facts(2) [OF 1(3)] obtain e0 where
    t0: "trace g1 = trace g @ e0" and c0: "\<forall>e \<in> set e0. \<exists>s. e = Ev_closesocket s" by blast
  have "\<forall>i \<in> set [0 ..< nat (max_connections g1)]. i < nat (max_connections g1)" by simp
  from dispatch_loop_facts [OF wf1 distinct_upt this 1(4)]
  obtain e1 where f: "loop_facts [0 ..< nat (max_connections g1)] g1 g' e1" by blast
  note F = loop_factsD [OF f]
  have nb: "Ev_bounce j d \<notin> set e0" and nf: "Ev_flush_backlog j d \<notin> set e0" for j d
    using c0 by auto
  have "trace g' = trace g @ (e0 @ e1)" using t0 F(1) by simp
  moreover have "Ev_flush_backlog j d \<notin> set (e0 @ e1) \<and> backlog_size_of d g ! j = 0 \<and>
      j < nat (max_connections g)" if "Ev_bounce j d \<in> set (e0 @ e1)" for j d
  proof -
    from that nb have b: "Ev_bounce j d \<in> set e1" by simp
    have "backlog_size_of d g1 ! j = 0" using F(5) [OF b] .
    then have "backlog_size_of d g ! j = 0" using admit_facts(1) [OF 1(3)] by simp
    moreover have "j < nat (max_connections g)" using F(3) [OF b] m1 by simp
    moreover have "Ev_flush_backlog j d \<notin> set (e0 @ e1)" using F(4) [OF b] nf by simp
    ultimately show ?thesis by simp
  qed
  ultimately show ?thesis by blast
qed

subsection \<open>Teardown\<close>

lemma kill_torn_down:
  assumes "wf_arrays g" "n < nat (max_connections g)"
  shows "torn_down n g (kill_connection n g)"
  unfolding torn_down_def
proof (intro conjI allI impI)
  show "\<exists>pre. trace (kill_connection n g) =
      pre @ [Ev_closesocket (conn_in g ! n), Ev_closesocket (conn_out g ! n)]"
    by (simp add: kill_connection_def)
  show "slot_eq g (kill_connection n g) k" if "k \<noteq> n" for k
    using that by (rule kill_frame)
qed (use assms in \<open>simp_all add: kill_connection_def wf_arrays_def\<close>)

lemma torn_down_logged:
  "torn_down n (g\<lparr>trace := t\<rparr>) g' \<Longrightarrow> torn_down n g g'"
  by (simp add: torn_down_def)

subsection \<open>Reachable states\<close>

lemma init_inv: "table_inv (init_globals maxc sock mem_in mem_out)"
  by (simp add: table_inv_def wf_arrays_def slot_inv_def backlog_ok_def dir_defs init_globals_def
        BACKLOG_SIZE_def)

lemma reachable_inv: "reachable g \<Longrightarrow> table_inv g"
proof (induction rule: reachable.induct)
  case (start maxc sock mem_in mem_out)
  then show ?case by (rule init_inv)
next
  case (step g sys g')
  then show ?case using poll_conn_inv poll_conn_sets_Inr by blast
qed

subsection \<open>Appending to a backlog\<close>

lemma queued_append:
  assumes "0 \<le> pos" "0 \<le> len" "0 \<le> k"
  shows "map (memcpy region (nat (pos + len)) src (nat k)) [nat pos ..< nat (pos + (len + k))] =
         map region [nat pos ..< nat (pos + len)] @ map src [0 ..< nat k]"
proof -
  have split: "[nat pos ..< nat (pos + (len + k))] =
      [nat pos ..< nat (pos + len)] @ [nat (pos + len) ..< nat (pos + len) + nat k]"
    using assms by (metis add.assoc le_add1 nat_add_distrib nat_le_iff add_nonneg_nonneg upt_add_eq_append
        zle_iff_zadd int_nat_eq le_add_same_cancel1 nat_mono)
  have a: "map (memcpy region (nat (pos + len)) src (nat k)) [nat pos ..< nat (pos + len)] =
      map region [nat pos ..< nat (pos + len)]"
    by (simp add: memcpy_def)
  have b: "map (memcpy region (nat (pos + len)) src (nat k))
        [nat (pos + len) ..< nat (pos + len) + nat k] = map src [0 ..< nat k]"
    by (simp add: memcpy_def map_add_upt [symmetric] add.commute)
  show ?thesis unfolding split map_append a b ..
qed

subsection \<open>The example run\<close>

lemmas sets_defs = poll_conn_sets_def stage1_sets_def stage2_interest_sets_def stage2_init_sets_def stage2_slot_sets_def
  admit_sets_def accept_incoming_def free_slot_def dispatch_slot_sets_def dispatch_flush_sets_def
  dispatch_bounce_sets_def bounce_def add_backlog_def flush_backlog_def kill_connection_def
  valid_socket_def init_globals_def INVALID_SOCKET_def BACKLOG_SIZE_def dir_defs Let_def

lemmas demo_defs = demo_start_def demo_accept_def demo_open_def demo_partial_def
  demo_backlogged_def demo_drain_def demo_drained_def

lemma demo_sets_step1: "poll_conn_sets demo_accept demo_start = Inr demo_open"
  by (simp add: sets_defs demo_defs)

lemma demo_sets_step2: "poll_conn_sets demo_partial demo_open = Inr demo_backlogged"
  by (simp add: sets_defs demo_defs)

lemma demo_sets_step3: "poll_conn_sets demo_drain demo_backlogged = Inr demo_drained"
  by (simp add: sets_defs demo_defs)

lemma demo_syscalls_ok: "syscalls_ok demo_accept" "syscalls_ok demo_partial" "syscalls_ok demo_drain"
  by (simp_all add: syscalls_ok_def demo_defs)

lemma demo_wf: "wf_arrays demo_start" "wf_arrays demo_open" "wf_arrays demo_backlogged"
  "wf_arrays demo_pair"
  by (simp_all add: wf_arrays_def demo_defs demo_pair_def init_globals_def)

lemma demo_fds: "fds_distinct demo_start" "fds_distinct demo_open" "fds_distinct demo_backlogged"
  by (simp_all add: fds_distinct_def slot_dead_def demo_defs init_globals_def INVALID_SOCKET_def)

lemma demo_sets_stage2:
  "stage2_interest_sets demo_start {} {} = Inr ({3}, {}, 3)"
  "stage2_interest_sets demo_open {4} {4, 5} = Inr ({4, 5}, {5}, 5)"
  "stage2_interest_sets demo_backlogged {4} {4, 5} = Inr ({5}, {5}, 5)"
  by (simp_all add: sets_defs demo_defs insert_commute)

subsection \<open>The fatal exits of an iteration\<close>

lemma stage1_loop_ok:
  assumes "table_inv g" "\<forall>i \<in> set is. i < nat (max_connections g)"
  shows "\<exists>acc'. stage1_loop_sets g is acc = Inr acc'"
  using assms(2)
proof (induction "is" arbitrary: acc)
  case Nil
  show ?case using stage1_loop_sets.simps(1) by blast
next
  case (Cons i "is")
  obtain r1 w1 m where acc: "acc = (r1, w1, m)" by (cases acc) auto
  from Cons.prems have "i < nat (max_connections g)" by simp
  then have v: "valid_socket i g = Inr (\<not> slot_dead g i)"
    using inv_valid_socket assms(1) by blast
  from Cons have IH: "\<And>acc. \<exists>acc'. stage1_loop_sets g is acc = Inr acc'" by simp
  show ?case unfolding acc using v IH by simp
qed

lemma stage2_loop_ok:
  assumes "table_inv g" "\<forall>i \<in> set is. i < nat (max_connections g)"
  shows "\<exists>acc'. stage2_loop_sets g r1 w1 is acc = Inr acc'"
  using assms(2)
proof (induction "is" arbitrary: acc)
  case Nil
  show ?case using stage2_loop_sets.simps(1) by blast
next
  case (Cons i "is")
  from Cons.prems have "i < nat (max_connections g)" by simp
  then have v: "valid_socket i g = Inr (\<not> slot_dead g i)"
    using inv_valid_socket assms(1) by blast
  from Cons have IH: "\<And>acc. \<exists>acc'. stage2_loop_sets g r1 w1 is acc = Inr acc'" by simp
  show ?case using v IH by simp
qed

lemma stage1_fatal:
  assumes "table_inv g" "stage1_sets sys g = Inl e"
  shows "e = Err_select1"
proof -
  have "\<forall>i \<in> set [0 ..< nat (max_connections g)]. i < nat (max_connections g)" by simp
  from stage1_loop_ok [OF assms(1) this]
  obtain acc where "stage1_loop_sets g [0 ..< nat (max_connections g)] ({}, {}, 0) = Inr acc" by blast
  then show ?thesis using assms(2)
    by (auto simp add: stage1_sets_def split: prod.splits if_splits)
qed

lemma stage2_ok:
  assumes "table_inv g"
  shows "\<exists>acc. stage2_interest_sets g r1 w1 = Inr acc"
proof -
  have "\<forall>i \<in> set [0 ..< nat (max_connections g)]. i < nat (max_connections g)" by simp
  from stage2_loop_ok [OF assms this] show ?thesis by (simp add: stage2_interest_sets_def)
qed

lemma admit_fatal:
  "admit_sets sys r2 g = Inl e \<Longrightarrow> e \<in> {Err_enqueue, Err_outgoing_socket, Err_connect}"
  by (auto simp add: admit_sets_def accept_incoming_def Let_def split: if_splits option.splits)

lemma bind_err_Inl_iff:
  "bind_err m f = Inl e \<longleftrightarrow> m = Inl e \<or> (\<exists>v. m = Inr v \<and> f v = Inl e)"
  by (cases m) simp_all

lemma poll_conn_fatal:
  assumes "table_inv g" "syscalls_ok sys" "poll_conn_sets sys g = Inl e"
  shows "e \<in> {Err_select1, Err_select_timeout, Err_select2,
              Err_enqueue, Err_outgoing_socket, Err_connect}"
proof (cases "stage1_sets sys g")
  case (Inl e1)
  then have "e = e1" using assms(3) by (simp add: poll_conn_unfold)
  then show ?thesis using stage1_fatal [OF assms(1) Inl] by simp
next
  case s1: (Inr s1)
  from stage2_ok [OF assms(1)] obtain acc where
    s2: "stage2_interest_sets g (fst s1) (snd s1) = Inr acc" by blast
  show ?thesis
  proof (cases "select2_ret sys = 0 \<or> select2_ret sys = - 1")
    case True
    then show ?thesis using assms(3) s1 s2 by (auto simp add: poll_conn_unfold)
  next
    case sel: False
    show ?thesis
    proof (cases "admit_sets sys (fst acc \<inter> select2_readable sys) g")
      case (Inl e1)
      then have "e = e1" using assms(3) s1 s2 sel by (simp add: poll_conn_unfold)
      then show ?thesis using admit_fatal [OF Inl] by auto
    next
      case (Inr g1)
      have inv1: "table_inv g1" using admit_inv [OF Inr assms(1)] .
      have "\<forall>i \<in> set [0 ..< nat (max_connections g1)]. i < nat (max_connections g1)" by simp
      from dispatch_loop_inv [OF inv1 assms(2) this,
          of "fst acc \<inter> select2_readable sys \<union> (fst s1 \<inter> {0 .. snd (snd acc)})"
             "fst (snd acc) \<inter> select2_writable sys \<union> (snd s1 \<inter> {0 .. snd (snd acc)})"]
      obtain g'' w'' where "dispatch_loop_sets sys
          (fst acc \<inter> select2_readable sys \<union> (fst s1 \<inter> {0 .. snd (snd acc)}))
          [0 ..< nat (max_connections g1)]
          (g1, fst (snd acc) \<inter> select2_writable sys \<union> (snd s1 \<inter> {0 .. snd (snd acc)})) = Inr (g'', w'')"
        by blast
      then have "poll_conn_sets sys g = Inr g''"
        using s1 s2 sel Inr by (simp add: poll_conn_unfold)
      then show ?thesis using assms(3) by simp
    qed
  qed
qed

subsection \<open>The capacity bound\<close>

lemma slot_bounded_cong: "slot_eq g g' k \<Longrightarrow> slot_bounded g' k = slot_bounded g k"
  by (simp add: slot_eq_def slot_bounded_def)

lemma bounded_frame:
  assumes "backlog_bounded g" "max_connections g' = max_connections g"
    and "slot_bounded g' n" "\<And>k. k \<noteq> n \<Longrightarrow> slot_eq g g' k"
  shows "backlog_bounded g'"
  unfolding backlog_bounded_def using assms
  by (metis backlog_bounded_def slot_bounded_cong)

lemma inv_bounded: "table_inv g \<Longrightarrow> backlog_bounded g"
  by (simp add: table_inv_def backlog_bounded_def slot_bounded_def slot_inv_def backlog_ok_def dir_defs)

lemma kill_slot_bounded:
  "wf_arrays g \<Longrightarrow> n < nat (max_connections g) \<Longrightarrow> slot_bounded (kill_connection n g) n"
  by (simp add: slot_bounded_def kill_connection_def wf_arrays_def BACKLOG_SIZE_def)

lemma kill_bounded:
  "wf_arrays g \<Longrightarrow> n < nat (max_connections g) \<Longrightarrow> backlog_bounded g \<Longrightarrow>
   backlog_bounded (kill_connection n g)"
  using bounded_frame [of g "kill_connection n g" n] kill_slot_bounded kill_frame by simp

lemma trace_upd_bounded [simp]: "backlog_bounded (g\<lparr>trace := t\<rparr>) = backlog_bounded g"
  by (simp add: backlog_bounded_def slot_bounded_def)

lemma flush_slot_bounded:
  assumes "wf_arrays g" "n < nat (max_connections g)" "slot_bounded g n"
  shows "slot_bounded (flush_backlog n dir sent g) n"
  using assms
  by (cases dir)
     (auto simp add: slot_bounded_def dir_defs flush_backlog_def kill_connection_def
        wf_arrays_def BACKLOG_SIZE_def Let_def)

lemma flush_bounded:
  assumes "wf_arrays g" "n < nat (max_connections g)" "backlog_bounded g"
  shows "backlog_bounded (flush_backlog n dir sent g)"
proof -
  have "slot_bounded g n" using assms(2,3) by (simp add: backlog_bounded_def)
  from flush_slot_bounded [OF assms(1,2) this]
  show ?thesis using bounded_frame [OF assms(3) flush_max] flush_frame by blast
qed

lemma add_backlog_slot_bounded:
  assumes "add_backlog n dir buf bufsize g = Inr g'" "wf_arrays g" "n < nat (max_connections g)"
    and "slot_bounded g n"
  shows "slot_bounded g' n"
  using assms
  by (cases dir)
     (auto simp add: slot_bounded_def dir_defs add_backlog_def wf_arrays_def Let_def
        split: if_splits)

lemma add_backlog_bounded:
  assumes "add_backlog n dir buf bufsize g = Inr g'" "wf_arrays g" "n < nat (max_connections g)"
    and "backlog_bounded g"
  shows "backlog_bounded g'"
proof -
  have "slot_bounded g n" using assms(3,4) by (simp add: backlog_bounded_def)
  from add_backlog_slot_bounded [OF assms(1,2,3) this]
  show ?thesis
    using bounded_frame [OF assms(4) add_backlog_max [OF assms(1)]] add_backlog_frame [OF assms(1)]
    by blast
qed

lemma bounce_bounded:
  assumes "bounce src dest n dir recvd buf sent g = Inr g'" "wf_arrays g"
    "n < nat (max_connections g)" "backlog_bounded g"
  shows "backlog_bounded g'"
proof -
  let ?g0 = "g\<lparr>trace := trace g @ [Ev_bounce n dir]\<rparr>"
  have wf0: "wf_arrays ?g0" and b0: "backlog_bounded ?g0" and n0: "n < nat (max_connections ?g0)"
    using assms by simp_all
  show ?thesis
  proof (cases "recvd < 1 \<or> sent < 1")
    case True
    then have "bounce src dest n dir recvd buf sent g = Inr (kill_connection n ?g0)"
      by (auto simp add: bounce_def Let_def)
    then have "g' = kill_connection n ?g0" using assms(1) by simp
    then show ?thesis using kill_bounded [OF wf0 n0 b0] by simp
  next
    case False
    show ?thesis
    proof (cases "sent < recvd")
      case True
      then have "bounce src dest n dir recvd buf sent g =
          add_backlog n dir (\<lambda>k. buf (k + nat sent)) (recvd - sent) ?g0"
        using False by (simp add: bounce_def Let_def)
      then have "add_backlog n dir (\<lambda>k. buf (k + nat sent)) (recvd - sent) ?g0 = Inr g'"
        using assms(1) by simp
      then show ?thesis using add_backlog_bounded [OF _ wf0 n0 b0] by blast
    next
      case full: False
      then have "bounce src dest n dir recvd buf sent g = Inr ?g0"
        using False by (simp add: bounce_def Let_def)
      then have "g' = ?g0" using assms(1) by simp
      then show ?thesis using b0 by simp
    qed
  qed
qed

lemma accept_bounded:
  "accept_incoming a b c g = Inr g' \<Longrightarrow> backlog_bounded g \<Longrightarrow> backlog_bounded g'"
  by (auto simp add: accept_incoming_def Let_def backlog_bounded_def slot_bounded_def
        split: if_splits option.splits)

lemma flush_effect:
  assumes "wf_arrays g" "n < nat (max_connections g)" "1 \<le> sent"
  shows "backlog_size_of dir (flush_backlog n dir sent g) ! n = backlog_size_of dir g ! n - sent \<and>
         backlog_pos_of dir (flush_backlog n dir sent g) ! n =
           (if backlog_size_of dir g ! n - sent = 0 then 0 else backlog_pos_of dir g ! n + sent) \<and>
         backlog_of dir (flush_backlog n dir sent g) = backlog_of dir g \<and>
         conn_in (flush_backlog n dir sent g) = conn_in g \<and>
         conn_out (flush_backlog n dir sent g) = conn_out g \<and>
         active_connections (flush_backlog n dir sent g) = active_connections g"
  using assms
  by (cases dir) (simp_all add: flush_backlog_def dir_defs wf_arrays_def Let_def)

lemma flush_queued:
  assumes "wf_arrays g" "n < nat (max_connections g)" "1 \<le> sent"
    and "sent \<le> backlog_size_of dir g ! n" "0 \<le> backlog_pos_of dir g ! n"
  shows "queued dir n (flush_backlog n dir sent g) = drop (nat sent) (queued dir n g)"
proof -
  let ?g' = "flush_backlog n dir sent g"
  let ?pos = "backlog_pos_of dir g ! n" and ?len = "backlog_size_of dir g ! n"
  note E = flush_effect [OF assms(1,2,3), of dir]
  have sz: "backlog_size_of dir ?g' ! n = ?len - sent" using E by simp
  have rg: "backlog_of dir ?g' ! n = backlog_of dir g ! n" using E by simp
  have old: "drop (nat sent) (queued dir n g) =
      map (backlog_of dir g ! n) [nat ?pos + nat sent ..< nat (?pos + ?len)]"
    by (simp add: queued_def drop_map)
  show ?thesis
  proof (cases "?len - sent = 0")
    case True
    then have "backlog_pos_of dir ?g' ! n = 0" using E by simp
    then have "queued dir n ?g' = []" using sz True by (simp add: queued_def)
    moreover have "nat (?pos + ?len) \<le> nat ?pos + nat sent" using True assms(3,5) by simp
    ultimately show ?thesis unfolding old by simp
  next
    case False
    then have ps: "backlog_pos_of dir ?g' ! n = ?pos + sent" using E by simp
    have a: "nat (?pos + sent) = nat ?pos + nat sent" using assms(3,5) by (simp add: nat_add_distrib)
    have b: "?pos + sent + (?len - sent) = ?pos + ?len" by simp
    have "queued dir n ?g' = map (backlog_of dir g ! n) [nat ?pos + nat sent ..< nat (?pos + ?len)]"
      unfolding queued_def ps sz rg a b ..
    then show ?thesis by (simp only: old)
  qed
qed

subsection \<open>Consistency of the handles\<close>





lemma inv_consistent: "table_inv g \<Longrightarrow> handles_consistent g"
  by (simp add: table_inv_def handles_consistent_def half_open_def slot_inv_def)

lemma half_open_cong: "slot_eq g g' k \<Longrightarrow> half_open g' k = half_open g k"
  by (simp add: slot_eq_def half_open_def)

lemma consistent_frame:
  assumes "handles_consistent g" "max_connections g' = max_connections g"
    and "\<not> half_open g' n" "\<And>k. k \<noteq> n \<Longrightarrow> slot_eq g g' k"
  shows "handles_consistent g'"
  unfolding handles_consistent_def using assms
  by (metis handles_consistent_def half_open_cong)

lemma kill_consistent:
  assumes "wf_arrays g" "n < nat (max_connections g)" "handles_consistent g"
  shows "handles_consistent (kill_connection n g)"
proof -
  have "\<not> half_open (kill_connection n g) n"
    using assms(1,2) by (simp add: half_open_def kill_connection_def wf_arrays_def)
  then show ?thesis using consistent_frame [OF assms(3) kill_max] kill_frame by blast
qed

lemma handles_consistent_conns:
  "conn_in g' = conn_in g \<Longrightarrow> conn_out g' = conn_out g \<Longrightarrow>
   max_connections g' = max_connections g \<Longrightarrow> handles_consistent g' = handles_consistent g"
  by (simp add: handles_consistent_def half_open_def)

lemma add_backlog_conns:
  "add_backlog n dir buf bufsize g = Inr g' \<Longrightarrow>
   conn_in g' = conn_in g \<and> conn_out g' = conn_out g \<and> max_connections g' = max_connections g"
  by (cases dir) (auto simp add: add_backlog_def dir_defs Let_def split: if_splits)



lemma accept_consistent:
  assumes "accept_incoming a b c g = Inr g'" "wf_arrays g" "handles_consistent g"
  shows "handles_consistent g'"
proof (cases "conn_in g' = conn_in g \<and> conn_out g' = conn_out g")
  case True
  then show ?thesis
    using handles_consistent_conns [of g' g] accept_max [OF assms(1)] assms(3) by simp
next
  case False
  let ?g1 = "g\<lparr>active_connections := active_connections g + 1\<rparr>"
  from assms(1) False obtain cur where cur: "free_slot ?g1 = Some cur"
    and ci: "conn_in g' = (conn_in g)[cur := a]" and co: "conn_out g' = (conn_out g)[cur := b]"
    and ab: "0 \<le> a" "0 \<le> b"
    by (auto simp add: accept_incoming_def Let_def split: if_splits option.splits)
  from free_slot_Some [OF cur] have c: "cur < nat (max_connections g)" by simp
  then have len: "cur < length (conn_in g)" "cur < length (conn_out g)"
    using assms(2) by (simp_all add: wf_arrays_def)
  have "\<not> half_open g' i" if "i < nat (max_connections g)" for i
  proof (cases "i = cur")
    case True
    then show ?thesis using ci co len ab by (simp add: half_open_def INVALID_SOCKET_def)
  next
    case False
    then show ?thesis using ci co assms(3) that
      by (simp add: half_open_def handles_consistent_def)
  qed
  then show ?thesis using accept_max [OF assms(1)] by (simp add: handles_consistent_def)
qed

subsection \<open>The read set of stage 2\<close>

lemma stage2_slot_read:
  "fst (stage2_slot_sets g r1 w1 i (r2, w2, m)) =
     r2 \<union> (if conn_in g ! i \<in> w1 \<and> backlog_in_size g ! i = 0 then {conn_out g ! i} else {}) \<union>
          (if conn_out g ! i \<in> w1 \<and> backlog_out_size g ! i = 0 then {conn_in g ! i} else {})"
  by (simp add: stage2_slot_sets_def Let_def)

lemma stage2_loop_read:
  assumes "stage2_loop_sets g r1 w1 is acc = Inr acc'"
  shows "fst acc' = fst acc \<union> (\<Union>i \<in> set is. read_interest g w1 i)"
  using assms
proof (induction "is" arbitrary: acc)
  case Nil
  then show ?case by simp
next
  case (Cons k "is")
  obtain r2 w2 m where acc: "acc = (r2, w2, m)" by (cases acc) auto
  show ?case
  proof (cases "valid_socket k g")
    case (Inl e)
    then show ?thesis using Cons.prems by simp
  next
    case (Inr v)
    show ?thesis
    proof (cases v)
      case True
      have alive: "\<not> slot_dead g k"
        using Inr True by (simp add: valid_socket_True)
      have "stage2_loop_sets g r1 w1 is (stage2_slot_sets g r1 w1 k acc) = Inr acc'"
        using Cons.prems Inr True by simp
      from Cons.IH [OF this]
      have step: "fst acc' =
          fst (stage2_slot_sets g r1 w1 k acc) \<union> (\<Union>i \<in> set is. read_interest g w1 i)" .
      have "read_interest g w1 k =
          (if conn_in g ! k \<in> w1 \<and> backlog_in_size g ! k = 0 then {conn_out g ! k} else {}) \<union>
          (if conn_out g ! k \<in> w1 \<and> backlog_out_size g ! k = 0 then {conn_in g ! k} else {})"
        using alive by (simp only: read_interest_def if_False)
      then have slot: "fst (stage2_slot_sets g r1 w1 k acc) = fst acc \<union> read_interest g w1 k"
        unfolding acc stage2_slot_read fst_conv by (simp only: Un_assoc)
      have "(\<Union>i \<in> set (k # is). read_interest g w1 i) =
          read_interest g w1 k \<union> (\<Union>i \<in> set is. read_interest g w1 i)"
        by simp
      then show ?thesis unfolding step slot by (simp only: Un_assoc)
    next
      case False
      have dead: "slot_dead g k"
        using Inr False by (simp add: valid_socket_def slot_dead_def split: if_splits)
      have "stage2_loop_sets g r1 w1 is acc = Inr acc'"
        using Cons.prems Inr False by simp
      from Cons.IH [OF this]
      have step: "fst acc' = fst acc \<union> (\<Union>i \<in> set is. read_interest g w1 i)" .
      have "read_interest g w1 k = {}" using dead by (simp add: read_interest_def)
      then have "(\<Union>i \<in> set (k # is). read_interest g w1 i) =
          (\<Union>i \<in> set is. read_interest g w1 i)"
        by simp
      then show ?thesis unfolding step by simp
    qed
  qed
qed

lemma stage2_interest_read:
  assumes "stage2_interest_sets g r1 w1 = Inr (r2, w2, m)"
  shows "x \<in> r2 \<longleftrightarrow>
           (x = sockin g \<and> active_connections g < max_connections g) \<or>
           (\<exists>i < nat (max_connections g). x \<in> read_interest g w1 i)"
proof -
  from stage2_loop_read [OF assms [unfolded stage2_interest_sets_def]]
  have r2: "r2 = fst (stage2_init_sets g) \<union>
      (\<Union>i \<in> set [0 ..< nat (max_connections g)]. read_interest g w1 i)"
    by (simp only: fst_conv)
  have a: "x \<in> fst (stage2_init_sets g) \<longleftrightarrow>
      x = sockin g \<and> active_connections g < max_connections g"
    by (simp add: stage2_init_sets_def)
  have b: "x \<in> (\<Union>i \<in> set [0 ..< nat (max_connections g)]. read_interest g w1 i) \<longleftrightarrow>
      (\<exists>i < nat (max_connections g). x \<in> read_interest g w1 i)"
    by (simp only: UN_iff set_upt atLeastLessThan_iff Bex_def) blast
  show ?thesis unfolding r2 Un_iff a b ..
qed

lemma read_interest_member:
  "x \<in> read_interest g w1 i \<longleftrightarrow>
     \<not> slot_dead g i \<and>
     ((x = conn_out g ! i \<and> conn_in g ! i \<in> w1 \<and> backlog_in_size g ! i = 0) \<or>
      (x = conn_in g ! i \<and> conn_out g ! i \<in> w1 \<and> backlog_out_size g ! i = 0))"
  by (auto simp add: read_interest_def)

lemma fds_distinctD:
  assumes "fds_distinct g" "i < nat (max_connections g)" "j < nat (max_connections g)"
    "\<not> slot_dead g i" "\<not> slot_dead g j"
  shows "conn_in g ! i \<noteq> conn_out g ! j" "conn_in g ! i \<noteq> sockin g" "conn_out g ! i \<noteq> sockin g"
    "conn_in g ! i = conn_in g ! j \<Longrightarrow> i = j" "conn_out g ! i = conn_out g ! j \<Longrightarrow> i = j"
  using assms unfolding fds_distinct_def by blast+

lemma sockin_interest:
  assumes "stage2_interest_sets g r1 w1 = Inr (r2, w2, m)" "fds_distinct g"
  shows "sockin g \<in> r2 \<longleftrightarrow> active_connections g < max_connections g"
proof
  assume "sockin g \<in> r2"
  then consider (listen) "active_connections g < max_connections g"
    | (slot) j where "j < nat (max_connections g)" "sockin g \<in> read_interest g w1 j"
    using stage2_interest_read [OF assms(1)] by blast
  then show "active_connections g < max_connections g"
  proof cases
    case listen
    then show ?thesis .
  next
    case (slot j)
    then have aj: "\<not> slot_dead g j" and "sockin g = conn_out g ! j \<or> sockin g = conn_in g ! j"
      by (auto simp add: read_interest_member)
    then show ?thesis using fds_distinctD(2,3) [OF assms(2) slot(1) slot(1) aj aj] by auto
  qed
next
  assume "active_connections g < max_connections g"
  then show "sockin g \<in> r2" using stage2_interest_read [OF assms(1)] by blast
qed

subsection \<open>Counting the occupied slots\<close>

lemma occupied_card:
  "occupied g = card {i. i < nat (max_connections g) \<and> \<not> slot_dead g i}"
  by (simp add: occupied_def length_filter_conv_card cong: conj_cong)

lemma slot_dead_cong: "slot_eq g g' k \<Longrightarrow> slot_dead g' k = slot_dead g k"
  by (simp add: slot_eq_def slot_dead_def)

lemma occupied_same:
  assumes "max_connections g' = max_connections g"
    and "\<And>k. k < nat (max_connections g) \<Longrightarrow> slot_dead g' k = slot_dead g k"
  shows "occupied g' = occupied g"
proof -
  have "{i. i < nat (max_connections g') \<and> \<not> slot_dead g' i} =
        {i. i < nat (max_connections g) \<and> \<not> slot_dead g i}"
    using assms by auto
  then show ?thesis by (simp add: occupied_card)
qed

lemma occupied_removed:
  assumes "max_connections g' = max_connections g" "n < nat (max_connections g)"
    and "\<And>k. k \<noteq> n \<Longrightarrow> slot_dead g' k = slot_dead g k"
    and "\<not> slot_dead g n" "slot_dead g' n"
  shows "int (occupied g') = int (occupied g) - 1"
proof -
  let ?A = "{i. i < nat (max_connections g) \<and> \<not> slot_dead g i}"
  have fin: "finite ?A" by simp
  have mem: "n \<in> ?A" using assms(2,4) by simp
  have "{i. i < nat (max_connections g') \<and> \<not> slot_dead g' i} = ?A - {n}"
  proof (rule set_eqI)
    fix i
    show "i \<in> {i. i < nat (max_connections g') \<and> \<not> slot_dead g' i} \<longleftrightarrow> i \<in> ?A - {n}"
    proof (cases "i = n")
      case True
      then show ?thesis using assms(5) by simp
    next
      case False
      then show ?thesis using assms(1) assms(3) [OF False] by simp
    qed
  qed
  then have "occupied g' = card (?A - {n})" by (simp add: occupied_card)
  also have "\<dots> = card ?A - 1" using fin mem by simp
  finally have "occupied g' = occupied g - 1" by (simp add: occupied_card)
  moreover have "0 < card ?A" using fin mem card_gt_0_iff by blast
  then have "0 < occupied g" by (simp add: occupied_card)
  ultimately show ?thesis by simp
qed

lemma occupied_added:
  assumes "max_connections g' = max_connections g" "n < nat (max_connections g)"
    and "\<And>k. k \<noteq> n \<Longrightarrow> slot_dead g' k = slot_dead g k"
    and "slot_dead g n" "\<not> slot_dead g' n"
  shows "int (occupied g') = int (occupied g) + 1"
proof -
  let ?A = "{i. i < nat (max_connections g) \<and> \<not> slot_dead g i}"
  have fin: "finite ?A" by simp
  have mem: "n \<notin> ?A" using assms(4) by simp
  have "{i. i < nat (max_connections g') \<and> \<not> slot_dead g' i} = insert n ?A"
  proof (rule set_eqI)
    fix i
    show "i \<in> {i. i < nat (max_connections g') \<and> \<not> slot_dead g' i} \<longleftrightarrow> i \<in> insert n ?A"
    proof (cases "i = n")
      case True
      then show ?thesis using assms(1,2,5) by simp
    next
      case False
      then show ?thesis using assms(1) assms(3) [OF False] by simp
    qed
  qed
  then have "occupied g' = card (insert n ?A)" by (simp add: occupied_card)
  also have "\<dots> = card ?A + 1" using fin mem by simp
  finally show ?thesis by (simp add: occupied_card)
qed

lemma occupied_le: "occupied g \<le> nat (max_connections g)"
  unfolding occupied_def using length_filter_le [of _ "[0 ..< nat (max_connections g)]"] by simp

lemma trace_upd_count [simp]: "count_inv (g\<lparr>trace := t\<rparr>) = count_inv g"
  by (simp add: count_inv_def handles_consistent_def half_open_def occupied_def slot_dead_def)

lemma kill_count:
  assumes "count_inv g" "n < nat (max_connections g)" "\<not> slot_dead g n"
  shows "count_inv (kill_connection n g)"
proof -
  have wf: "wf_arrays g" and hc: "handles_consistent g"
    and ac: "active_connections g = int (occupied g)"
    using assms(1) by (simp_all add: count_inv_def)
  have dead': "slot_dead (kill_connection n g) n"
    using wf assms(2) by (simp add: slot_dead_def kill_connection_def wf_arrays_def)
  have "int (occupied (kill_connection n g)) = int (occupied g) - 1"
    using occupied_removed [OF kill_max assms(2) _ assms(3) dead'] kill_frame slot_dead_cong
    by blast
  moreover have "active_connections (kill_connection n g) = active_connections g - 1"
    by (simp add: kill_connection_def)
  ultimately show ?thesis
    using kill_wf [OF wf] kill_consistent [OF wf assms(2) hc] ac by (simp add: count_inv_def)
qed

lemma count_inv_same:
  assumes "count_inv g" "wf_arrays g'" "conn_in g' = conn_in g" "conn_out g' = conn_out g"
    "max_connections g' = max_connections g" "active_connections g' = active_connections g"
  shows "count_inv g'"
proof -
  have "occupied g' = occupied g"
    using occupied_same [OF assms(5)] assms(3,4) by (simp add: slot_dead_def)
  then show ?thesis
    using assms handles_consistent_conns [OF assms(3,4,5)] by (simp add: count_inv_def)
qed

lemma count_inv_alive:
  "count_inv g \<Longrightarrow> n < nat (max_connections g) \<Longrightarrow> conn_of dir g ! n \<noteq> INVALID_SOCKET \<Longrightarrow>
   \<not> slot_dead g n"
  by (cases dir)
     (auto simp add: count_inv_def handles_consistent_def half_open_def slot_dead_def dir_defs)

lemma flush_count:
  assumes "count_inv g" "n < nat (max_connections g)" "conn_of dir g ! n \<noteq> INVALID_SOCKET"
  shows "count_inv (flush_backlog n dir sent g)"
proof (cases "sent < 1")
  case True
  let ?g0 = "g\<lparr>trace := trace g @ [Ev_flush_backlog n dir]\<rparr>"
  have "flush_backlog n dir sent g = kill_connection n ?g0"
    using True by (simp add: flush_backlog_def Let_def)
  moreover have "\<not> slot_dead ?g0 n" using count_inv_alive [OF assms] by (simp add: slot_dead_def)
  ultimately show ?thesis using kill_count [of ?g0 n] assms(1,2) by simp
next
  case False
  then have e: "1 \<le> sent" by simp
  have wf: "wf_arrays g" using assms(1) by (simp add: count_inv_def)
  from flush_effect [OF wf assms(2) e, of dir]
  show ?thesis using count_inv_same [OF assms(1) flush_wf [OF wf] _ _ flush_max] by blast
qed

lemma add_backlog_active:
  "add_backlog n dir buf bufsize g = Inr g' \<Longrightarrow> active_connections g' = active_connections g"
  by (cases dir) (auto simp add: add_backlog_def dir_defs Let_def split: if_splits)

lemma bounce_count:
  assumes "bounce src dest n dir recvd buf sent g = Inr g'" "count_inv g"
    "n < nat (max_connections g)" "\<not> slot_dead g n"
  shows "count_inv g'"
proof -
  let ?g0 = "g\<lparr>trace := trace g @ [Ev_bounce n dir]\<rparr>"
  have c0: "count_inv ?g0" using assms(2) by simp
  have n0: "n < nat (max_connections ?g0)" using assms(3) by simp
  have a0: "\<not> slot_dead ?g0 n" using assms(4) by (simp add: slot_dead_def)
  have wf0: "wf_arrays ?g0" using c0 by (simp add: count_inv_def)
  show ?thesis
  proof (cases "recvd < 1 \<or> sent < 1")
    case True
    then have "bounce src dest n dir recvd buf sent g = Inr (kill_connection n ?g0)"
      by (auto simp add: bounce_def Let_def)
    then have "g' = kill_connection n ?g0" using assms(1) by simp
    then show ?thesis using kill_count [OF c0 n0 a0] by simp
  next
    case False
    show ?thesis
    proof (cases "sent < recvd")
      case True
      then have "bounce src dest n dir recvd buf sent g =
          add_backlog n dir (\<lambda>k. buf (k + nat sent)) (recvd - sent) ?g0"
        using False by (simp add: bounce_def Let_def)
      then have ab: "add_backlog n dir (\<lambda>k. buf (k + nat sent)) (recvd - sent) ?g0 = Inr g'"
        using assms(1) by simp
      show ?thesis
        using count_inv_same [OF c0 add_backlog_wf [OF ab wf0]] add_backlog_conns [OF ab]
          add_backlog_active [OF ab] by blast
    next
      case full: False
      then have "bounce src dest n dir recvd buf sent g = Inr ?g0"
        using False by (simp add: bounce_def Let_def)
      then have "g' = ?g0" using assms(1) by simp
      then show ?thesis using c0 by simp
    qed
  qed
qed

lemma accept_cases:
  assumes "accept_incoming a b c g = Inr g'"
  obtains (unchanged) "conn_in g' = conn_in g" "conn_out g' = conn_out g"
      "active_connections g' = active_connections g"
  | (installed) cur where "free_slot g = Some cur"
      "conn_in g' = (conn_in g)[cur := a]" "conn_out g' = (conn_out g)[cur := b]"
      "0 \<le> a" "0 \<le> b" "active_connections g' = active_connections g + 1"
      "active_connections g < max_connections g"
  using assms
  by (auto simp add: accept_incoming_def Let_def free_slot_def split: if_splits option.splits)

lemma accept_count:
  assumes "accept_incoming a b c g = Inr g'" "count_inv g"
  shows "count_inv g'"
proof -
  have wf: "wf_arrays g" and hc: "handles_consistent g"
    and ac: "active_connections g = int (occupied g)"
    using assms(2) by (simp_all add: count_inv_def)
  note wf' = accept_wf [OF assms(1) wf] and hc' = accept_consistent [OF assms(1) wf hc]
    and m' = accept_max [OF assms(1)]
  from assms(1) show ?thesis
  proof (cases rule: accept_cases)
    case unchanged
    then show ?thesis using count_inv_same [OF assms(2) wf' _ _ m'] by blast
  next
    case (installed cur)
    from installed(1) have c: "cur < nat (max_connections g)"
      "conn_in g ! cur = INVALID_SOCKET"
      by (auto simp add: free_slot_def find_Some_iff)
    then have len: "cur < length (conn_in g)" "cur < length (conn_out g)"
      using wf by (simp_all add: wf_arrays_def)
    have d: "slot_dead g cur" using c(2) by (simp add: slot_dead_def)
    have a: "\<not> slot_dead g' cur"
      using installed(2-5) len by (simp add: slot_dead_def INVALID_SOCKET_def)
    have o: "slot_dead g' k = slot_dead g k" if "k \<noteq> cur" for k
      using that installed(2,3) by (simp add: slot_dead_def)
    from occupied_added [OF m' c(1) o d a]
    show ?thesis using wf' hc' installed(6) ac by (simp add: count_inv_def)
  qed
qed

lemma count_inv_max:
  "count_inv g \<Longrightarrow> active_connections g \<le> max_connections g \<or> max_connections g < 0"
  using occupied_le [of g] by (auto simp add: count_inv_def)

lemma dispatch_flush_count:
  assumes "count_inv g" "i < nat (max_connections g)"
    and "dispatch_flush_sets sys i d (g, w2) = (g', w2')"
  shows "count_inv g'"
proof (cases "conn_of d g ! i \<noteq> INVALID_SOCKET \<and> backlog_size_of d g ! i \<noteq> 0 \<and> conn_of d g ! i \<in> w2")
  case True
  then have "g' = flush_backlog i d (flush_send_ret sys i d (backlog_size_of d g ! i)) g"
    using assms(3) by (simp add: dispatch_flush_sets_def)
  then show ?thesis using flush_count [OF assms(1,2)] True by simp
next
  case False
  then have "g' = g" using assms(3) by (auto simp add: dispatch_flush_sets_def)
  then show ?thesis using assms(1) by simp
qed

lemma dispatch_bounce_count:
  assumes "count_inv g" "i < nat (max_connections g)"
    and "dispatch_bounce_sets sys r2 i d (g, w2) = Inr (g', w2')"
  shows "count_inv g'"
  using assms(3)
proof (cases rule: dispatch_bounce_cases)
  case skip
  then show ?thesis using assms(1) by simp
next
  case (run g'')
  then show ?thesis using bounce_count [OF run(3) assms(1,2) run(1)] by simp
qed

lemma dispatch_slot_count:
  assumes "count_inv g" "i < nat (max_connections g)"
    and "dispatch_slot_sets sys r2 i (g, w2) = Inr (g', w2')"
  shows "count_inv g'"
proof -
  obtain g1 w1 where s1: "dispatch_flush_sets sys i IN (g, w2) = (g1, w1)" by fastforce
  obtain g2 w2a where s2: "dispatch_flush_sets sys i OUT (g1, w1) = (g2, w2a)" by fastforce
  from assms(3) s1 s2 obtain g3 w3 where s3: "dispatch_bounce_sets sys r2 i OUT (g2, w2a) = Inr (g3, w3)"
    and s4: "dispatch_bounce_sets sys r2 i IN (g3, w3) = Inr (g', w2')"
    by (auto simp add: dispatch_slot_sets_def bind_err_Inr_iff)
  have c1: "count_inv g1" and i1: "i < nat (max_connections g1)"
    using dispatch_flush_count [OF assms(1,2) s1] dispatch_flush_shape(1) [OF s1] assms(2)
    by simp_all
  have c2: "count_inv g2" and i2: "i < nat (max_connections g2)"
    using dispatch_flush_count [OF c1 i1 s2] dispatch_flush_shape(1) [OF s2] i1 by simp_all
  have c3: "count_inv g3" and i3: "i < nat (max_connections g3)"
    using dispatch_bounce_count [OF c2 i2 s3] dispatch_bounce_shape(1) [OF s3] i2 by simp_all
  show ?thesis using dispatch_bounce_count [OF c3 i3 s4] .
qed

lemma dispatch_loop_count:
  assumes "count_inv g" "\<forall>i \<in> set is. i < nat (max_connections g)"
    and "dispatch_loop_sets sys r2 is (g, w2) = Inr (g', w2')"
  shows "count_inv g'"
  using assms
proof (induction "is" arbitrary: g w2)
  case Nil
  then show ?case by simp
next
  case (Cons i "is")
  from Cons.prems(3) obtain g1 w1 where s: "dispatch_slot_sets sys r2 i (g, w2) = Inr (g1, w1)"
    and l: "dispatch_loop_sets sys r2 is (g1, w1) = Inr (g', w2')"
    by (auto simp add: bind_err_Inr_iff)
  from Cons.prems(2) have i: "i < nat (max_connections g)" by simp
  have c1: "count_inv g1" using dispatch_slot_count [OF Cons.prems(1) i s] .
  have "\<forall>i \<in> set is. i < nat (max_connections g1)"
    using dispatch_slot_shape(1) [OF s] Cons.prems(2) by simp
  from Cons.IH [OF c1 this l] show ?case .
qed

lemma poll_conn_count:
  assumes "poll_conn_sets sys g = Inr g'" "count_inv g"
  shows "count_inv g'"
  using assms(1)
proof (cases rule: poll_conn_Inr)
  case (1 r1 w1 r2i w2i max_fd g1 w2')
  have c1: "count_inv g1"
    using 1(3) assms(2) accept_count by (auto simp add: admit_sets_def split: if_splits)
  have "\<forall>i \<in> set [0 ..< nat (max_connections g1)]. i < nat (max_connections g1)" by simp
  from dispatch_loop_count [OF c1 this 1(4)] show ?thesis .
qed

lemma init_count: "count_inv (init_globals maxc sock mem_in mem_out)"
proof -
  let ?g = "init_globals maxc sock mem_in mem_out"
  have "filter (\<lambda>i. \<not> slot_dead ?g i) [0 ..< nat (max_connections ?g)] = []"
    by (simp add: filter_empty_conv slot_dead_def init_globals_def)
  then have "occupied ?g = 0" by (simp add: occupied_def)
  moreover have "active_connections ?g = 0" by (simp add: init_globals_def)
  ultimately show ?thesis
    using inv_wf [OF init_inv, of maxc sock mem_in mem_out]
      inv_consistent [OF init_inv, of maxc sock mem_in mem_out]
    by (simp add: count_inv_def)
qed

lemma reachable_count: "reachable g \<Longrightarrow> count_inv g"
proof (induction rule: reachable.induct)
  case (start maxc sock mem_in mem_out)
  then show ?case by (rule init_count)
next
  case (step g sys g')
  then show ?case using poll_conn_count poll_conn_sets_Inr by blast
qed

lemma accept_reject:
  assumes "0 \<le> incoming" "max_connections g \<le> active_connections g"
  shows "\<exists>g'. accept_incoming incoming outgoing connected g = Inr g' \<and>
           trace g' = trace g @ [Ev_closesocket incoming] \<and>
           active_connections g' = active_connections g \<and>
           max_connections g' = max_connections g \<and> sockin g' = sockin g \<and>
           (\<forall>k. slot_eq g g' k)"
  using assms by (simp add: accept_incoming_def Let_def slot_eq_def)

subsection \<open>The arguments of main\<close>

lemmas atoi_defs = atoi_def strtol_def LONG_MAX_def LONG_MIN_def isspace_def isdigit_def Let_def

lemma atoi_65536: "atoi ''65536'' = 65536"
  by (simp add: atoi_defs)

lemma atoi_80: "atoi ''80'' = 80"
  by (simp add: atoi_defs)

lemma atoi_wraps: "atoi ''4294967296'' = 0" "atoi ''4294967297'' = 1" "atoi ''-5'' = - 5"
  "atoi ''99999999999999999999'' = - 1"
  by (simp_all add: atoi_defs)

lemma parse_args_accepts:
  assumes "parse_args argv = Relay lp rh rp mc v"
  shows "lp \<noteq> 0 \<and> rp \<noteq> 0 \<and> 1 \<le> mc \<and> mc \<le> 65535 \<and> lp = atoi (argv ! 1) \<and>
         (length argv \<le> 3 \<or> argv ! 3 = ''-v'' \<longrightarrow> mc = 10)"
  using assms
  by (auto simp add: parse_args_def Let_def split: if_splits)

lemma parse_args_silly_max:
  assumes "3 < length argv" "argv ! 3 = ''-max''" "4 < length argv"
    and "atoi (argv ! 4) < 1 \<or> 65535 < atoi (argv ! 4)"
  shows "\<exists>code. parse_args argv = Exit code \<and> (code = EXIT_FAILURE)"
  using assms by (auto simp add: parse_args_def Let_def)

subsection \<open>Descriptors stay distinct\<close>

lemma conn_shrink_refl: "conn_shrink g g"
  by (simp add: conn_shrink_def)

lemma conn_shrink_trans: "conn_shrink g g1 \<Longrightarrow> conn_shrink g1 g2 \<Longrightarrow> conn_shrink g g2"
  unfolding conn_shrink_def by (metis slot_dead_def)

lemma conn_shrink_distinct:
  assumes "fds_distinct g" "conn_shrink g g'"
  shows "fds_distinct g'"
proof -
  have m: "max_connections g' = max_connections g" and s: "sockin g' = sockin g"
    using assms(2) by (simp_all add: conn_shrink_def)
  have same: "\<not> slot_dead g k \<and> conn_in g' ! k = conn_in g ! k \<and> conn_out g' ! k = conn_out g ! k"
    if "k < nat (max_connections g)" "\<not> slot_dead g' k" for k
    using that assms(2) unfolding conn_shrink_def slot_dead_def by metis
  show ?thesis
    unfolding fds_distinct_def m s
  proof (intro allI impI)
    fix i j
    assume i: "i < nat (max_connections g)" and j: "j < nat (max_connections g)"
      and a: "\<not> slot_dead g' i \<and> \<not> slot_dead g' j"
    note si = same [OF i] and sj = same [OF j]
    note D = fds_distinctD [OF assms(1) i j]
    from a si sj have ai: "\<not> slot_dead g i" and aj: "\<not> slot_dead g j" by simp_all
    show "conn_in g' ! i \<noteq> conn_out g' ! j \<and>
        conn_in g' ! i \<noteq> sockin g \<and> conn_out g' ! i \<noteq> sockin g \<and>
        (i \<noteq> j \<longrightarrow> conn_in g' ! i \<noteq> conn_in g' ! j \<and> conn_out g' ! i \<noteq> conn_out g' ! j)"
      using a si sj D(1) [OF ai aj] D(2) [OF ai aj] D(3) [OF ai aj] D(4) [OF ai aj] D(5) [OF ai aj]
      by auto
  qed
qed

lemma slot_eq_shrink:
  assumes "max_connections g' = max_connections g" "sockin g' = sockin g"
    and "slot_kept d g g' i" "\<And>k. k \<noteq> i \<Longrightarrow> slot_eq g g' k"
  shows "conn_shrink g g'"
  unfolding conn_shrink_def
proof (intro conjI allI impI)
  fix k
  show "slot_dead g' k \<or> (conn_in g' ! k = conn_in g ! k \<and> conn_out g' ! k = conn_out g ! k)"
  proof (cases "k = i")
    case True
    then show ?thesis using assms(3) by (auto simp add: slot_kept_def)
  next
    case False
    then show ?thesis using assms(4) by (simp add: slot_eq_def)
  qed
qed (use assms(1,2) in simp_all)

lemma flush_sockin [simp]: "sockin (flush_backlog n dir sent g) = sockin g"
  by (cases dir) (simp_all add: flush_backlog_def kill_connection_def dir_defs Let_def)

lemma bounce_sockin: "bounce src dest n dir recvd buf sent g = Inr g' \<Longrightarrow> sockin g' = sockin g"
  by (cases dir)
     (auto simp add: bounce_def add_backlog_def kill_connection_def dir_defs Let_def split: if_splits)

lemma dispatch_flush_shrink:
  assumes "wf_arrays g" "i < nat (max_connections g)"
    and "dispatch_flush_sets sys i d (g, w2) = (g', w2')"
  shows "conn_shrink g g'"
proof -
  from dispatch_flush_facts [OF assms(1,2), of d w2 sys] assms(3)
  obtain evs where f: "flush_step_facts i d (g, w2) (g', w2') evs" by auto
  have s: "sockin g' = sockin g"
    using assms(3) by (auto simp add: dispatch_flush_sets_def split: if_splits)
  show ?thesis
    using slot_eq_shrink [OF dispatch_flush_shape(1) [OF assms(3)] s flush_factsD(5) [OF f]]
      dispatch_flush_shape(3) [OF assms(3)] by blast
qed

lemma dispatch_bounce_shrink:
  assumes "wf_arrays g" "i < nat (max_connections g)"
    and "dispatch_bounce_sets sys r2 i d (g, w2) = Inr (g', w2')"
  shows "conn_shrink g g'"
proof -
  from dispatch_bounce_facts [OF assms]
  obtain evs where f: "bounce_step_facts i d (g, w2) (g', w2') evs" by auto
  have s: "sockin g' = sockin g"
    using assms(3) by (cases rule: dispatch_bounce_cases) (simp_all add: bounce_sockin)
  show ?thesis
    using slot_eq_shrink [OF dispatch_bounce_shape(1) [OF assms(3)] s bounce_factsD(5) [OF f]]
      dispatch_bounce_shape(3) [OF assms(3)] by blast
qed

lemma dispatch_slot_shrink:
  assumes "wf_arrays g" "i < nat (max_connections g)"
    and "dispatch_slot_sets sys r2 i (g, w2) = Inr (g', w2')"
  shows "conn_shrink g g'"
proof -
  obtain g1 w1 where s1: "dispatch_flush_sets sys i IN (g, w2) = (g1, w1)" by fastforce
  obtain g2 w2a where s2: "dispatch_flush_sets sys i OUT (g1, w1) = (g2, w2a)" by fastforce
  from assms(3) s1 s2 obtain g3 w3 where s3: "dispatch_bounce_sets sys r2 i OUT (g2, w2a) = Inr (g3, w3)"
    and s4: "dispatch_bounce_sets sys r2 i IN (g3, w3) = Inr (g', w2')"
    by (auto simp add: dispatch_slot_sets_def bind_err_Inr_iff)
  have wf1: "wf_arrays g1" and i1: "i < nat (max_connections g1)"
    using dispatch_flush_shape(1,2) [OF s1] assms(1,2) by simp_all
  have wf2: "wf_arrays g2" and i2: "i < nat (max_connections g2)"
    using dispatch_flush_shape(1,2) [OF s2] wf1 i1 by simp_all
  have wf3: "wf_arrays g3" and i3: "i < nat (max_connections g3)"
    using dispatch_bounce_shape(1,2) [OF s3] wf2 i2 by simp_all
  show ?thesis
    using dispatch_flush_shrink [OF assms(1,2) s1] dispatch_flush_shrink [OF wf1 i1 s2]
      dispatch_bounce_shrink [OF wf2 i2 s3] dispatch_bounce_shrink [OF wf3 i3 s4]
      conn_shrink_trans by blast
qed

lemma dispatch_loop_shrink:
  assumes "wf_arrays g" "\<forall>i \<in> set is. i < nat (max_connections g)"
    and "dispatch_loop_sets sys r2 is (g, w2) = Inr (g', w2')"
  shows "conn_shrink g g'"
  using assms
proof (induction "is" arbitrary: g w2)
  case Nil
  then show ?case by (simp add: conn_shrink_refl)
next
  case (Cons i "is")
  from Cons.prems(3) obtain g1 w1 where s: "dispatch_slot_sets sys r2 i (g, w2) = Inr (g1, w1)"
    and l: "dispatch_loop_sets sys r2 is (g1, w1) = Inr (g', w2')"
    by (auto simp add: bind_err_Inr_iff)
  from Cons.prems(2) have i: "i < nat (max_connections g)" by simp
  note S = dispatch_slot_shape [OF s]
  have wf1: "wf_arrays g1" using S(2) Cons.prems(1) by simp
  have b1: "\<forall>i \<in> set is. i < nat (max_connections g1)" using S(1) Cons.prems(2) by simp
  show ?case
    using dispatch_slot_shrink [OF Cons.prems(1) i s] Cons.IH [OF wf1 b1 l] conn_shrink_trans
    by blast
qed

lemma accept_distinct:
  assumes "accept_incoming a b c g = Inr g'" "wf_arrays g" "fds_distinct g"
    and fresh: "0 \<le> a \<longrightarrow> a \<notin> live_fds g \<and> (0 \<le> b \<longrightarrow> b \<notin> live_fds g \<and> b \<noteq> a)"
  shows "fds_distinct g'"
proof -
  have m: "max_connections g' = max_connections g" using accept_max [OF assms(1)] .
  have s: "sockin g' = sockin g"
    using assms(1) by (auto simp add: accept_incoming_def Let_def split: if_splits option.splits)
  from assms(1) show ?thesis
  proof (cases rule: accept_cases)
    case unchanged
    then have "conn_shrink g g'" using m s by (simp add: conn_shrink_def)
    then show ?thesis using conn_shrink_distinct [OF assms(3)] by blast
  next
    case (installed cur)
    from installed(1) have c: "cur < nat (max_connections g)"
      by (auto simp add: free_slot_def find_Some_iff)
    then have len: "cur < length (conn_in g)" "cur < length (conn_out g)"
      using assms(2) by (simp_all add: wf_arrays_def)
    have new: "conn_in g' ! cur = a" "conn_out g' ! cur = b"
      using installed(2,3) len by simp_all
    have old: "conn_in g' ! k = conn_in g ! k \<and> conn_out g' ! k = conn_out g ! k"
      if "k \<noteq> cur" for k using that installed(2,3) by simp
    have live: "conn_in g ! k \<in> live_fds g \<and> conn_out g ! k \<in> live_fds g"
      if "k < nat (max_connections g)" "\<not> slot_dead g k" for k
      using that by (auto simp add: live_fds_def)
    have sl: "sockin g \<in> live_fds g" by (simp add: live_fds_def)
    have fr: "a \<notin> live_fds g" "b \<notin> live_fds g" "b \<noteq> a"
      using fresh installed(4,5) by simp_all
    show ?thesis
      unfolding fds_distinct_def m s
    proof (intro allI impI)
      fix i j
      assume i: "i < nat (max_connections g)" and j: "j < nat (max_connections g)"
        and al: "\<not> slot_dead g' i \<and> \<not> slot_dead g' j"
      have ai: "\<not> slot_dead g i" if "i \<noteq> cur"
        using al old [OF that] by (simp add: slot_dead_def)
      have aj: "\<not> slot_dead g j" if "j \<noteq> cur"
        using al old [OF that] by (simp add: slot_dead_def)
      note D = fds_distinctD [OF assms(3) i j]
      show "conn_in g' ! i \<noteq> conn_out g' ! j \<and>
          conn_in g' ! i \<noteq> sockin g \<and> conn_out g' ! i \<noteq> sockin g \<and>
          (i \<noteq> j \<longrightarrow> conn_in g' ! i \<noteq> conn_in g' ! j \<and> conn_out g' ! i \<noteq> conn_out g' ! j)"
      proof (cases "i = cur")
        case ic: True
        show ?thesis
        proof (cases "j = cur")
          case True
          then show ?thesis using ic new fr sl by auto
        next
          case False
          then show ?thesis
            using ic new old [OF False] live [OF j aj [OF False]] fr sl by auto
        qed
      next
        case inc: False
        show ?thesis
        proof (cases "j = cur")
          case True
          note Di = fds_distinctD [OF assms(3) i i]
          from True show ?thesis
            using new old [OF inc] live [OF i ai [OF inc]] fr
              Di(2) [OF ai [OF inc] ai [OF inc]] Di(3) [OF ai [OF inc] ai [OF inc]] inc
            by auto
        next
          case False
          then show ?thesis
            using old [OF inc] old [OF False] D(1) [OF ai [OF inc] aj [OF False]]
              D(2) [OF ai [OF inc] aj [OF False]] D(3) [OF ai [OF inc] aj [OF False]]
              D(4) [OF ai [OF inc] aj [OF False]] D(5) [OF ai [OF inc] aj [OF False]]
            by auto
        qed
      qed
    qed
  qed
qed

lemma init_distinct: "fds_distinct (init_globals maxc sock mem_in mem_out)"
  by (simp add: fds_distinct_def slot_dead_def init_globals_def)

lemma poll_conn_distinct:
  assumes "poll_conn_sets sys g = Inr g'" "wf_arrays g" "fds_distinct g" "fresh_fds sys g"
  shows "fds_distinct g'"
  using assms(1)
proof (cases rule: poll_conn_Inr)
  case (1 r1 w1 r2i w2i max_fd g1 w2')
  have wf1: "wf_arrays g1" using admit_wf [OF 1(3) assms(2)] .
  have d1: "fds_distinct g1"
  proof (cases "sockin g \<in> r2i \<inter> select2_readable sys")
    case True
    then have "accept_incoming (accept_ret sys) (socket_ret sys) (connect_ret sys) g = Inr g1"
      using 1(3) by (simp add: admit_sets_def)
    from accept_distinct [OF this assms(2,3)] show ?thesis
      using assms(4) by (simp add: fresh_fds_def)
  next
    case False
    then have "admit_sets sys (r2i \<inter> select2_readable sys) g = Inr g"
      unfolding admit_sets_def by (simp only: if_False)
    then have "g1 = g" using 1(3) by simp
    then show ?thesis using assms(3) by simp
  qed
  have "\<forall>i \<in> set [0 ..< nat (max_connections g1)]. i < nat (max_connections g1)" by simp
  from dispatch_loop_shrink [OF wf1 this 1(4)]
  show ?thesis using conn_shrink_distinct [OF d1] by blast
qed

subsection \<open>Descriptors every fd_set has a bit for\<close>

lemma stage1_loop_defined:
  assumes "fds_bounded sys g" "\<forall>i \<in> set is. i < nat (max_connections g)"
  shows "stage1_loop sys g is acc = stage1_loop_sets g is acc"
  using assms(2)
proof (induction "is" arbitrary: acc)
  case Nil
  then show ?case by simp
next
  case (Cons i "is")
  obtain r1 w1 m where acc: "acc = (r1, w1, m)" by (cases acc)
  have i: "i < nat (max_connections g)" using Cons.prems by simp
  have rest: "\<forall>k \<in> set is. k < nat (max_connections g)" using Cons.prems by simp
  show ?case
  proof (cases "valid_socket i g")
    case (Inl e)
    then show ?thesis by (simp add: acc)
  next
    case (Inr v)
    show ?thesis
    proof (cases v)
      case False
      then show ?thesis using Inr Cons.IH [OF rest] by (simp add: acc)
    next
      case True
      then have "valid_socket i g = Inr True" using Inr by simp
      then have "\<not> slot_dead g i" by (simp add: valid_socket_True)
      then have "fd_in_range sys (conn_in g ! i)" "fd_in_range sys (conn_out g ! i)"
        using assms(1) i by (simp_all add: fds_bounded_def)
      then show ?thesis using Inr True Cons.IH [OF rest] by (simp add: acc FD_in_range)
    qed
  qed
qed

lemma stage1_defined: "fds_bounded sys g \<Longrightarrow> stage1 sys g = stage1_sets sys g"
  by (simp add: stage1_def stage1_sets_def stage1_loop_defined)

lemma stage2_slot_defined:
  assumes "fd_in_range sys (conn_in g ! i)" "fd_in_range sys (conn_out g ! i)"
  shows "stage2_slot sys g r1 w1 i acc = Inr (stage2_slot_sets g r1 w1 i acc)"
  using assms
  by (cases acc) (simp add: stage2_slot_def stage2_slot_sets_def FD_in_range Let_def)

lemma stage2_loop_defined:
  assumes "fds_bounded sys g" "\<forall>i \<in> set is. i < nat (max_connections g)"
  shows "stage2_loop sys g r1 w1 is acc = stage2_loop_sets g r1 w1 is acc"
  using assms(2)
proof (induction "is" arbitrary: acc)
  case Nil
  then show ?case by simp
next
  case (Cons i "is")
  have i: "i < nat (max_connections g)" using Cons.prems by simp
  have rest: "\<forall>k \<in> set is. k < nat (max_connections g)" using Cons.prems by simp
  show ?case
  proof (cases "valid_socket i g")
    case (Inl e)
    then show ?thesis by simp
  next
    case (Inr v)
    show ?thesis
    proof (cases v)
      case False
      then show ?thesis using Inr Cons.IH [OF rest] by simp
    next
      case True
      then have "valid_socket i g = Inr True" using Inr by simp
      then have "\<not> slot_dead g i" by (simp add: valid_socket_True)
      then have "fd_in_range sys (conn_in g ! i)" "fd_in_range sys (conn_out g ! i)"
        using assms(1) i by (simp_all add: fds_bounded_def)
      then show ?thesis using Inr True Cons.IH [OF rest] by (simp add: stage2_slot_defined)
    qed
  qed
qed

lemma stage2_interest_defined:
  assumes "fds_bounded sys g"
  shows "stage2_interest sys g r1 w1 = stage2_interest_sets g r1 w1"
proof -
  have "fd_in_range sys (sockin g)" using assms by (simp add: fds_bounded_def)
  then have "stage2_init sys g = Inr (stage2_init_sets g)"
    by (simp add: stage2_init_def stage2_init_sets_def FD_in_range)
  then show ?thesis
    using stage2_loop_defined [OF assms, of "[0 ..< nat (max_connections g)]"]
    by (simp add: stage2_interest_def stage2_interest_sets_def)
qed

lemma stage2_loop_max:
  assumes "stage2_loop_sets g r1 w1 is acc = Inr acc'" "snd (snd acc) < N"
    and "\<forall>i \<in> set is. \<not> slot_dead g i \<longrightarrow> conn_in g ! i < N \<and> conn_out g ! i < N"
  shows "snd (snd acc') < N"
  using assms
proof (induction "is" arbitrary: acc)
  case Nil
  then show ?case by simp
next
  case (Cons i "is")
  have rest: "\<forall>k \<in> set is. \<not> slot_dead g k \<longrightarrow> conn_in g ! k < N \<and> conn_out g ! k < N"
    using Cons.prems(3) by simp
  show ?case
  proof (cases "valid_socket i g")
    case (Inl e)
    then show ?thesis using Cons.prems(1) by simp
  next
    case (Inr v)
    show ?thesis
    proof (cases v)
      case False
      then have "stage2_loop_sets g r1 w1 is acc = Inr acc'" using Inr Cons.prems(1) by simp
      from Cons.IH [OF this Cons.prems(2) rest] show ?thesis .
    next
      case True
      then have "valid_socket i g = Inr True" using Inr by simp
      then have "\<not> slot_dead g i" by (simp add: valid_socket_True)
      then have "conn_in g ! i < N" "conn_out g ! i < N" using Cons.prems(3) by simp_all
      then have m: "snd (snd (stage2_slot_sets g r1 w1 i acc)) < N"
        using Cons.prems(2) by (cases acc) (simp add: stage2_slot_sets_def Let_def)
      have "stage2_loop_sets g r1 w1 is (stage2_slot_sets g r1 w1 i acc) = Inr acc'"
        using Inr True Cons.prems(1) by simp
      from Cons.IH [OF this m rest] show ?thesis .
    qed
  qed
qed

lemma stage2_interest_max:
  assumes "stage2_interest_sets g r1 w1 = Inr (r2, w2, m)" "fds_bounded sys g"
  shows "m < FD_SETSIZE sys"
proof -
  have s: "fd_in_range sys (sockin g)" using assms(2) by (simp add: fds_bounded_def)
  then have "snd (snd (stage2_init_sets g)) < FD_SETSIZE sys"
    by (simp add: stage2_init_sets_def fd_in_range_def)
  moreover have "\<forall>i \<in> set [0 ..< nat (max_connections g)].
      \<not> slot_dead g i \<longrightarrow> conn_in g ! i < FD_SETSIZE sys \<and> conn_out g ! i < FD_SETSIZE sys"
    using assms(2) by (simp add: fds_bounded_def fd_in_range_def)
  ultimately show ?thesis
    using stage2_loop_max [OF assms(1) [unfolded stage2_interest_sets_def]] by simp
qed

lemma admit_defined:
  "fd_in_range sys (sockin g) \<Longrightarrow> admit sys r2 g = admit_sets sys r2 g"
  by (simp add: admit_def admit_sets_def FD_in_range)

lemma merge_loop_defined:
  assumes "\<forall>i \<in> set is. fd_in_range sys i"
  shows "merge_loop sys r1 w1 is (r2, w2) = Inr (r2 \<union> (r1 \<inter> set is), w2 \<union> (w1 \<inter> set is))"
  using assms
proof (induction "is" arbitrary: r2 w2)
  case Nil
  then show ?case by simp
next
  case (Cons i "is")
  have r: "(if i \<in> r1 then insert i r2 else r2) \<union> (r1 \<inter> set is) = r2 \<union> (r1 \<inter> set (i # is))"
    by auto
  have w: "(if i \<in> w1 then insert i w2 else w2) \<union> (w1 \<inter> set is) = w2 \<union> (w1 \<inter> set (i # is))"
    by auto
  have rest: "\<forall>k \<in> set is. fd_in_range sys k" using Cons.prems by simp
  have "merge_loop sys r1 w1 (i # is) (r2, w2) =
          merge_loop sys r1 w1 is
            (if i \<in> r1 then insert i r2 else r2, if i \<in> w1 then insert i w2 else w2)"
    using Cons.prems by (simp add: FD_in_range)
  then show ?case
    using Cons.IH [OF rest, of "if i \<in> r1 then insert i r2 else r2"
        "if i \<in> w1 then insert i w2 else w2"]
    by (simp only: r w)
qed

lemma merge_defined:
  assumes "m < FD_SETSIZE sys"
  shows "merge_loop sys r1 w1 [0 .. m] (r2, w2) =
           Inr (r2 \<union> (r1 \<inter> {0 .. m}), w2 \<union> (w1 \<inter> {0 .. m}))"
proof -
  have "\<forall>i \<in> set [0 .. m]. fd_in_range sys i"
    using assms by (simp add: fd_in_range_def)
  from merge_loop_defined [OF this] show ?thesis by simp
qed

lemma shrink_bounded:
  assumes "conn_shrink g g'" "fds_bounded sys g"
  shows "fds_bounded sys g'"
  unfolding fds_bounded_def
proof (intro conjI allI impI)
  show "fd_in_range sys (sockin g')"
    using assms by (simp add: conn_shrink_def fds_bounded_def)
next
  fix i
  assume i: "i < nat (max_connections g')" and a: "\<not> slot_dead g' i"
  from assms(1) i have k: "i < nat (max_connections g)" by (simp add: conn_shrink_def)
  with assms(1) a
  have same: "conn_in g' ! i = conn_in g ! i" "conn_out g' ! i = conn_out g ! i"
    unfolding conn_shrink_def by blast+
  then have "\<not> slot_dead g i" using a by (simp add: slot_dead_def)
  then show "fd_in_range sys (conn_in g' ! i)" "fd_in_range sys (conn_out g' ! i)"
    using assms(2) k same by (simp_all add: fds_bounded_def)
qed

lemma dispatch_flush_defined:
  assumes "handles_consistent g" "fds_bounded sys g" "i < nat (max_connections g)"
  shows "dispatch_flush sys i d (g, w2) = Inr (dispatch_flush_sets sys i d (g, w2))"
proof (cases "conn_of d g ! i \<noteq> INVALID_SOCKET")
  case False
  then show ?thesis by (simp add: dispatch_flush_def dispatch_flush_sets_def)
next
  case True
  have "\<not> half_open g i" using assms(1,3) by (simp add: handles_consistent_def)
  then have "\<not> slot_dead g i"
    using True by (cases d) (auto simp add: half_open_def slot_dead_def dir_defs)
  then have "fd_in_range sys (conn_of d g ! i)"
    using assms(2,3) by (cases d) (simp_all add: fds_bounded_def dir_defs)
  then show ?thesis by (simp add: dispatch_flush_def dispatch_flush_sets_def FD_in_range)
qed

lemma dispatch_bounce_defined:
  assumes "fds_bounded sys g" "i < nat (max_connections g)"
  shows "dispatch_bounce sys r2 i d (g, w2) = dispatch_bounce_sets sys r2 i d (g, w2)"
proof (cases "valid_socket i g = Inr True")
  case True
  then have "\<not> slot_dead g i" by (simp add: valid_socket_True)
  then have "fd_in_range sys (conn_in g ! i)" "fd_in_range sys (conn_out g ! i)"
    using assms by (simp_all add: fds_bounded_def)
  then show ?thesis
    using True by (simp add: dispatch_bounce_def dispatch_bounce_sets_def FD_in_range Let_def)
next
  case False
  then consider e where "valid_socket i g = Inl e" | "valid_socket i g = Inr False"
    by (cases "valid_socket i g") auto
  then show ?thesis
    by cases (simp_all add: dispatch_bounce_def dispatch_bounce_sets_def Let_def)
qed

lemma dispatch_slot_defined:
  assumes "count_inv g" "fds_bounded sys g" "i < nat (max_connections g)"
  shows "dispatch_slot sys r2 i (g, w2) = dispatch_slot_sets sys r2 i (g, w2)"
proof -
  have wf: "wf_arrays g" and hc: "handles_consistent g"
    using assms(1) by (simp_all add: count_inv_def)
  obtain g1 wa where s1: "dispatch_flush_sets sys i IN (g, w2) = (g1, wa)"
    by (cases "dispatch_flush_sets sys i IN (g, w2)")
  have f1: "dispatch_flush sys i IN (g, w2) = Inr (g1, wa)"
    using dispatch_flush_defined [OF hc assms(2,3)] s1 by simp
  have c1: "count_inv g1" using dispatch_flush_count [OF assms(1,3) s1] .
  have k1: "conn_shrink g g1" using dispatch_flush_shrink [OF wf assms(3) s1] .
  have b1: "fds_bounded sys g1" using shrink_bounded [OF k1 assms(2)] .
  have i1: "i < nat (max_connections g1)" using k1 assms(3) by (simp add: conn_shrink_def)
  have wf1: "wf_arrays g1" and hc1: "handles_consistent g1"
    using c1 by (simp_all add: count_inv_def)
  obtain g2 wb where s2: "dispatch_flush_sets sys i OUT (g1, wa) = (g2, wb)"
    by (cases "dispatch_flush_sets sys i OUT (g1, wa)")
  have f2: "dispatch_flush sys i OUT (g1, wa) = Inr (g2, wb)"
    using dispatch_flush_defined [OF hc1 b1 i1] s2 by simp
  have c2: "count_inv g2" using dispatch_flush_count [OF c1 i1 s2] .
  have k2: "conn_shrink g1 g2" using dispatch_flush_shrink [OF wf1 i1 s2] .
  have b2: "fds_bounded sys g2" using shrink_bounded [OF k2 b1] .
  have i2: "i < nat (max_connections g2)" using k2 i1 by (simp add: conn_shrink_def)
  have wf2: "wf_arrays g2" using c2 by (simp add: count_inv_def)
  have f3: "dispatch_bounce sys r2 i OUT (g2, wb) = dispatch_bounce_sets sys r2 i OUT (g2, wb)"
    using dispatch_bounce_defined [OF b2 i2] .
  have new: "dispatch_slot sys r2 i (g, w2) =
      bind_err (dispatch_bounce_sets sys r2 i OUT (g2, wb)) (dispatch_bounce sys r2 i IN)"
    by (simp add: dispatch_slot_def f1 f2 f3)
  have old: "dispatch_slot_sets sys r2 i (g, w2) =
      bind_err (dispatch_bounce_sets sys r2 i OUT (g2, wb)) (dispatch_bounce_sets sys r2 i IN)"
    by (simp add: dispatch_slot_sets_def s1 s2)
  show ?thesis
  proof (cases "dispatch_bounce_sets sys r2 i OUT (g2, wb)")
    case (Inl e)
    then show ?thesis using new old by simp
  next
    case (Inr st3)
    obtain g3 wc where st3: "st3 = (g3, wc)" by (cases st3)
    have s3: "dispatch_bounce_sets sys r2 i OUT (g2, wb) = Inr (g3, wc)"
      using Inr st3 by simp
    have k3: "conn_shrink g2 g3" using dispatch_bounce_shrink [OF wf2 i2 s3] .
    have b3: "fds_bounded sys g3" using shrink_bounded [OF k3 b2] .
    have i3: "i < nat (max_connections g3)" using k3 i2 by (simp add: conn_shrink_def)
    show ?thesis
      using new old s3 dispatch_bounce_defined [OF b3 i3, of r2 IN wc] by simp
  qed
qed

lemma dispatch_loop_defined:
  assumes "count_inv g" "fds_bounded sys g" "\<forall>i \<in> set is. i < nat (max_connections g)"
  shows "dispatch_loop sys r2 is (g, w2) = dispatch_loop_sets sys r2 is (g, w2)"
  using assms
proof (induction "is" arbitrary: g w2)
  case Nil
  then show ?case by simp
next
  case (Cons i "is")
  have i: "i < nat (max_connections g)" using Cons.prems(3) by simp
  have wf: "wf_arrays g" using Cons.prems(1) by (simp add: count_inv_def)
  note step = dispatch_slot_defined [OF Cons.prems(1,2) i, of r2 w2]
  show ?case
  proof (cases "dispatch_slot_sets sys r2 i (g, w2)")
    case (Inl e)
    then show ?thesis using step by simp
  next
    case (Inr st)
    obtain g' w2' where st: "st = (g', w2')" by (cases st)
    have s: "dispatch_slot_sets sys r2 i (g, w2) = Inr (g', w2')" using Inr st by simp
    have c: "count_inv g'" using dispatch_slot_count [OF Cons.prems(1) i s] .
    have k: "conn_shrink g g'" using dispatch_slot_shrink [OF wf i s] .
    have b: "fds_bounded sys g'" using shrink_bounded [OF k Cons.prems(2)] .
    have rest: "\<forall>k \<in> set is. k < nat (max_connections g')"
      using k Cons.prems(3) by (simp add: conn_shrink_def)
    show ?thesis using step s Cons.IH [OF c b rest, of w2'] by simp
  qed
qed

lemma accept_sockin: "accept_incoming a b c g = Inr g' \<Longrightarrow> sockin g' = sockin g"
  by (auto simp add: accept_incoming_def Let_def split: if_splits option.splits)

lemma accept_fds_bounded:
  assumes "accept_incoming a b c g = Inr g'" "wf_arrays g" "fds_bounded sys g"
    and "a < FD_SETSIZE sys" "b < FD_SETSIZE sys"
  shows "fds_bounded sys g'"
proof -
  note m = accept_max [OF assms(1)] and s = accept_sockin [OF assms(1)]
  from assms(1) show ?thesis
  proof (cases rule: accept_cases)
    case unchanged
    then have "slot_dead g' k = slot_dead g k" for k by (simp add: slot_dead_def)
    then show ?thesis using assms(3) unchanged(1,2) m s by (simp add: fds_bounded_def)
  next
    case (installed cur)
    from installed(1) have c: "cur < nat (max_connections g)"
      by (auto simp add: free_slot_def find_Some_iff)
    then have len: "cur < length (conn_in g)" "cur < length (conn_out g)"
      using assms(2) by (simp_all add: wf_arrays_def)
    have new: "fd_in_range sys a" "fd_in_range sys b"
      using installed(4,5) assms(4,5) by (simp_all add: fd_in_range_def)
    show ?thesis
      unfolding fds_bounded_def
    proof (intro conjI allI impI)
      show "fd_in_range sys (sockin g')" using assms(3) s by (simp add: fds_bounded_def)
    next
      fix k
      assume k: "k < nat (max_connections g')" and a: "\<not> slot_dead g' k"
      show "fd_in_range sys (conn_in g' ! k)" "fd_in_range sys (conn_out g' ! k)"
      proof -
        have "fd_in_range sys (conn_in g' ! k) \<and> fd_in_range sys (conn_out g' ! k)"
        proof (cases "k = cur")
          case True
          then show ?thesis using installed(2,3) len new by simp
        next
          case False
          then have same: "conn_in g' ! k = conn_in g ! k" "conn_out g' ! k = conn_out g ! k"
            using installed(2,3) by simp_all
          then have "\<not> slot_dead g k" using a by (simp add: slot_dead_def)
          then show ?thesis using assms(3) k m same by (simp add: fds_bounded_def)
        qed
        then show "fd_in_range sys (conn_in g' ! k)" "fd_in_range sys (conn_out g' ! k)"
          by simp_all
      qed
    qed
  qed
qed

lemma admit_sets_cases:
  assumes "admit_sets sys r2 g = Inr g1"
  obtains "g1 = g"
  | "accept_incoming (accept_ret sys) (socket_ret sys) (connect_ret sys) g = Inr g1"
  using assms by (cases "sockin g \<in> r2") (simp_all add: admit_sets_def)

lemma admit_count:
  assumes "admit_sets sys r2 g = Inr g1" "count_inv g"
  shows "count_inv g1"
  using assms(1)
proof (cases rule: admit_sets_cases)
  case 1
  then show ?thesis using assms(2) by simp
next
  case 2
  then show ?thesis using accept_count assms(2) by blast
qed

lemma admit_fds_bounded:
  assumes "admit_sets sys r2 g = Inr g1" "wf_arrays g" "fds_bounded sys g" "accepts_bounded sys"
  shows "fds_bounded sys g1"
  using assms(1)
proof (cases rule: admit_sets_cases)
  case 1
  then show ?thesis using assms(3) by simp
next
  case 2
  from accept_fds_bounded [OF 2 assms(2,3)] assms(4)
  show ?thesis by (simp add: accepts_bounded_def)
qed

lemma poll_conn_defined:
  assumes "count_inv g" "fds_bounded sys g" "accepts_bounded sys"
  shows "poll_conn sys g = poll_conn_sets sys g"
proof -
  have wf: "wf_arrays g" using assms(1) by (simp add: count_inv_def)
  have sk: "fd_in_range sys (sockin g)" using assms(2) by (simp add: fds_bounded_def)
  have tail: "bind_err (admit sys r2 g) (\<lambda>g1.
         bind_err (merge_loop sys r1 w1 [0 .. m] (r2, w2)) (\<lambda>merged.
           case merged of (r2m, w2m) \<Rightarrow>
             bind_err (dispatch_loop sys r2m [0 ..< nat (max_connections g1)] (g1, w2m))
               (\<lambda>st. Inr (fst st)))) =
       bind_err (admit_sets sys r2 g) (\<lambda>g1.
         bind_err
           (dispatch_loop_sets sys (r2 \<union> (r1 \<inter> {0 .. m})) [0 ..< nat (max_connections g1)]
              (g1, w2 \<union> (w1 \<inter> {0 .. m})))
           (\<lambda>st. Inr (fst st)))"
    if m: "m < FD_SETSIZE sys" for r1 w1 r2 w2 m
  proof (cases "admit_sets sys r2 g")
    case (Inl e)
    then show ?thesis using admit_defined [OF sk, of r2] by simp
  next
    case (Inr g1)
    have c: "count_inv g1" using admit_count [OF Inr assms(1)] .
    have b: "fds_bounded sys g1" using admit_fds_bounded [OF Inr wf assms(2,3)] .
    have "dispatch_loop sys r2m [0 ..< nat (max_connections g1)] (g1, w2m) =
          dispatch_loop_sets sys r2m [0 ..< nat (max_connections g1)] (g1, w2m)" for r2m w2m
      using dispatch_loop_defined [OF c b] by simp
    then show ?thesis
      using Inr admit_defined [OF sk, of r2] merge_defined [OF m] by simp
  qed
  show ?thesis
  proof (cases "stage1_sets sys g")
    case (Inl e)
    then show ?thesis
      by (simp add: poll_conn_def poll_conn_sets_def stage1_defined [OF assms(2)])
  next
    case (Inr s1)
    obtain r1 w1 where s1: "s1 = (r1, w1)" by (cases s1)
    show ?thesis
    proof (cases "stage2_interest_sets g r1 w1")
      case (Inl e)
      then show ?thesis
        using Inr s1
        by (simp add: poll_conn_def poll_conn_sets_def stage1_defined [OF assms(2)]
            stage2_interest_defined [OF assms(2)])
    next
      case acc: (Inr acc)
      obtain r2i w2i m where a: "acc = (r2i, w2i, m)" by (cases acc)
      have m: "m < FD_SETSIZE sys"
        using stage2_interest_max [OF _ assms(2)] acc a by simp
      show ?thesis
        using Inr s1 acc a tail [OF m]
        by (simp add: poll_conn_def poll_conn_sets_def stage1_defined [OF assms(2)]
            stage2_interest_defined [OF assms(2)] Let_def)
    qed
  qed
qed

subsection \<open>What returns used descriptors below FD_SETSIZE only\<close>

lemma stage1_loop_Inr_bounded:
  assumes "stage1_loop sys g is acc = Inr acc'" "i \<in> set is" "\<not> slot_dead g i"
  shows "fd_in_range sys (conn_in g ! i) \<and> fd_in_range sys (conn_out g ! i)"
  using assms(1,2)
proof (induction "is" arbitrary: acc)
  case Nil
  then show ?case by simp
next
  case (Cons k "is")
  obtain r1 w1 m where acc: "acc = (r1, w1, m)" by (cases acc)
  from Cons.prems(1) obtain v where v: "valid_socket k g = Inr v"
    by (cases "valid_socket k g") (simp_all add: acc)
  show ?case
  proof (cases v)
    case False
    then have "valid_socket k g \<noteq> Inr True" using v by simp
    then have "i \<noteq> k" using assms(3) valid_socket_True [of k g] by auto
    moreover have "stage1_loop sys g is (r1, w1, m) = Inr acc'"
      using Cons.prems(1) v False by (simp add: acc)
    ultimately show ?thesis using Cons.IH Cons.prems(2) by simp
  next
    case True
    have k: "fd_in_range sys (conn_in g ! k) \<and> fd_in_range sys (conn_out g ! k)"
    proof (rule ccontr)
      assume "\<not> ?thesis"
      then have "\<exists>e. stage1_loop sys g (k # is) (r1, w1, m) = Inl e"
        using v True
        by (cases "fd_in_range sys (conn_in g ! k)"; cases "fd_in_range sys (conn_out g ! k)")
          (simp_all add: FD_in_range FD_out_of_range)
      then show False using Cons.prems(1) by (auto simp add: acc)
    qed
    then have "stage1_loop sys g is
        (insert (conn_out g ! k) (insert (conn_in g ! k) r1),
         insert (conn_out g ! k) (insert (conn_in g ! k) w1),
         max m (max (conn_in g ! k) (conn_out g ! k))) = Inr acc'"
      using Cons.prems(1) v True by (simp add: acc FD_in_range)
    from Cons.IH [OF this] show ?thesis using k Cons.prems(2) by auto
  qed
qed

lemma stage2_slot_Inr_bounded:
  assumes "stage2_slot sys g r1 w1 i acc = Inr acc'"
  shows "fd_in_range sys (conn_in g ! i) \<and> fd_in_range sys (conn_out g ! i)"
proof (rule ccontr)
  assume "\<not> ?thesis"
  then have "\<exists>e. stage2_slot sys g r1 w1 i acc = Inl e"
    by (cases acc; cases "fd_in_range sys (conn_in g ! i)";
        cases "fd_in_range sys (conn_out g ! i)")
      (simp_all add: stage2_slot_def FD_in_range FD_out_of_range)
  then show False using assms by auto
qed

lemma stage2_loop_Inr_bounded:
  assumes "stage2_loop sys g r1 w1 is acc = Inr acc'" "i \<in> set is" "\<not> slot_dead g i"
  shows "fd_in_range sys (conn_in g ! i) \<and> fd_in_range sys (conn_out g ! i)"
  using assms(1,2)
proof (induction "is" arbitrary: acc)
  case Nil
  then show ?case by simp
next
  case (Cons k "is")
  from Cons.prems(1) obtain v where v: "valid_socket k g = Inr v"
    by (cases "valid_socket k g") simp_all
  show ?case
  proof (cases v)
    case False
    then have "valid_socket k g \<noteq> Inr True" using v by simp
    then have "i \<noteq> k" using assms(3) valid_socket_True [of k g] by auto
    moreover have "stage2_loop sys g r1 w1 is acc = Inr acc'"
      using Cons.prems(1) v False by simp
    ultimately show ?thesis using Cons.IH Cons.prems(2) by simp
  next
    case True
    then have "bind_err (stage2_slot sys g r1 w1 k acc) (stage2_loop sys g r1 w1 is) = Inr acc'"
      using Cons.prems(1) v by simp
    then obtain acc1 where s: "stage2_slot sys g r1 w1 k acc = Inr acc1"
      and l: "stage2_loop sys g r1 w1 is acc1 = Inr acc'"
      unfolding bind_err_Inr_iff by blast
    from Cons.IH [OF l] stage2_slot_Inr_bounded [OF s] show ?thesis
      using Cons.prems(2) by auto
  qed
qed

lemma stage2_interest_Inr_bounded:
  assumes "stage2_interest sys g r1 w1 = Inr acc" "i < nat (max_connections g)"
    and "\<not> slot_dead g i"
  shows "fd_in_range sys (conn_in g ! i) \<and> fd_in_range sys (conn_out g ! i)"
proof -
  from assms(1) obtain acc0 where
    "stage2_loop sys g r1 w1 [0 ..< nat (max_connections g)] acc0 = Inr acc"
    unfolding stage2_interest_def bind_err_Inr_iff by blast
  from stage2_loop_Inr_bounded [OF this _ assms(3)] assms(2) show ?thesis by simp
qed

lemma stage2_interest_Inr_sockin:
  assumes "stage2_interest sys g r1 w1 = Inr acc" "active_connections g < max_connections g"
  shows "fd_in_range sys (sockin g)"
proof (rule ccontr)
  assume "\<not> fd_in_range sys (sockin g)"
  then have "stage2_init sys g = Inl (Undefined_fd (sockin g))"
    using assms(2) by (simp add: stage2_init_def FD_out_of_range)
  then show False using assms(1) by (simp add: stage2_interest_def)
qed

lemma admit_Inr_sockin: "admit sys r2 g = Inr g1 \<Longrightarrow> fd_in_range sys (sockin g)"
  by (cases "fd_in_range sys (sockin g)") (simp_all add: admit_def FD_out_of_range)

lemma poll_conn_Inr_bounded:
  assumes "poll_conn sys g = Inr g'"
  shows "fds_bounded sys g"
proof -
  from assms obtain s1 where a: "stage1 sys g = Inr s1"
    and r1: "(case s1 of (r1, w1) \<Rightarrow>
         bind_err (stage2_interest sys g r1 w1) (\<lambda>acc.
           case acc of (r2i, w2i, max_fd) \<Rightarrow>
             if select2_ret sys = 0 then Inl Err_select_timeout
             else if select2_ret sys = - 1 then Inl Err_select2
             else
               bind_err (admit sys (r2i \<inter> select2_readable sys) g) (\<lambda>g1.
                  bind_err (merge_loop sys r1 w1 [0 .. max_fd]
                      (r2i \<inter> select2_readable sys, w2i \<inter> select2_writable sys)) (\<lambda>merged.
                    case merged of (r2m, w2m) \<Rightarrow>
                      bind_err
                        (dispatch_loop sys r2m [0 ..< nat (max_connections g1)] (g1, w2m))
                        (\<lambda>st. Inr (fst st)))))) = Inr g'"
    unfolding poll_conn_def Let_def bind_err_Inr_iff by blast
  obtain r1 w1 where s1: "s1 = (r1, w1)" by (cases s1)
  from r1 obtain acc where
    r2: "(case acc of (r2i, w2i, max_fd) \<Rightarrow>
             if select2_ret sys = 0 then Inl Err_select_timeout
             else if select2_ret sys = - 1 then Inl Err_select2
             else
               bind_err (admit sys (r2i \<inter> select2_readable sys) g) (\<lambda>g1.
                  bind_err (merge_loop sys r1 w1 [0 .. max_fd]
                      (r2i \<inter> select2_readable sys, w2i \<inter> select2_writable sys)) (\<lambda>merged.
                    case merged of (r2m, w2m) \<Rightarrow>
                      bind_err
                        (dispatch_loop sys r2m [0 ..< nat (max_connections g1)] (g1, w2m))
                        (\<lambda>st. Inr (fst st))))) = Inr g'"
    unfolding s1 prod.case bind_err_Inr_iff by blast
  obtain r2i w2i m where acc: "acc = (r2i, w2i, m)" by (cases acc)
  from r2 have "bind_err (admit sys (r2i \<inter> select2_readable sys) g) (\<lambda>g1.
                  bind_err (merge_loop sys r1 w1 [0 .. m]
                      (r2i \<inter> select2_readable sys, w2i \<inter> select2_writable sys)) (\<lambda>merged.
                    case merged of (r2m, w2m) \<Rightarrow>
                      bind_err
                        (dispatch_loop sys r2m [0 ..< nat (max_connections g1)] (g1, w2m))
                        (\<lambda>st. Inr (fst st)))) = Inr g'"
    unfolding acc prod.case by (simp split: if_splits)
  then obtain g1 where "admit sys (r2i \<inter> select2_readable sys) g = Inr g1"
    unfolding bind_err_Inr_iff by blast
  then have sk: "fd_in_range sys (sockin g)" by (rule admit_Inr_sockin)
  from a obtain acc1 where
    l: "stage1_loop sys g [0 ..< nat (max_connections g)] ({}, {}, 0) = Inr acc1"
    unfolding stage1_def bind_err_Inr_iff by blast
  have "fd_in_range sys (conn_in g ! i) \<and> fd_in_range sys (conn_out g ! i)"
    if "i < nat (max_connections g)" "\<not> slot_dead g i" for i
    using stage1_loop_Inr_bounded [OF l _ that(2)] that(1) by simp
  then show ?thesis using sk by (simp add: fds_bounded_def)
qed

subsection \<open>The example run of the program\<close>


lemma demo_bounded:
  "fds_bounded demo_accept demo_start" "fds_bounded demo_partial demo_open"
  "fds_bounded demo_drain demo_backlogged" "fds_bounded demo_accept demo_open"
  by (simp_all add: fds_bounded_def fd_in_range_def slot_dead_def demo_defs init_globals_def
      INVALID_SOCKET_def)

lemma demo_accepts_bounded:
  "accepts_bounded demo_accept" "accepts_bounded demo_partial" "accepts_bounded demo_drain"
  by (simp_all add: accepts_bounded_def demo_defs)

lemma demo_count: "count_inv demo_start" "count_inv demo_open" "count_inv demo_backlogged"
proof -
  show a: "count_inv demo_start" unfolding demo_start_def by (rule init_count)
  show b: "count_inv demo_open" using poll_conn_count [OF demo_sets_step1 a] .
  show "count_inv demo_backlogged" using poll_conn_count [OF demo_sets_step2 b] .
qed

lemma demo_step1: "poll_conn demo_accept demo_start = Inr demo_open"
  using poll_conn_defined [OF demo_count(1) demo_bounded(1) demo_accepts_bounded(1)]
    demo_sets_step1 by simp

lemma demo_step2: "poll_conn demo_partial demo_open = Inr demo_backlogged"
  using poll_conn_defined [OF demo_count(2) demo_bounded(2) demo_accepts_bounded(2)]
    demo_sets_step2 by simp

lemma demo_step3: "poll_conn demo_drain demo_backlogged = Inr demo_drained"
  using poll_conn_defined [OF demo_count(3) demo_bounded(3) demo_accepts_bounded(3)]
    demo_sets_step3 by simp

lemma demo_reachable: "reachable demo_start" "reachable demo_open" "reachable demo_backlogged"
proof -
  show a: "reachable demo_start" unfolding demo_start_def by (rule reachable.start)
  show b: "reachable demo_open"
    using reachable.step [OF a demo_syscalls_ok(1) demo_step1] .
  show "reachable demo_backlogged"
    using reachable.step [OF b demo_syscalls_ok(2) demo_step2] .
qed

lemma demo_stage2:
  "stage2_interest demo_accept demo_start {} {} = Inr ({3}, {}, 3)"
  "stage2_interest demo_accept demo_open {4} {4, 5} = Inr ({4, 5}, {5}, 5)"
  "stage2_interest demo_drain demo_backlogged {4} {4, 5} = Inr ({5}, {5}, 5)"
  using demo_sets_stage2
  by (simp_all add: stage2_interest_defined demo_bounded)

subsection \<open>Where a slot with one handle is met\<close>








lemma admit_skip:
  "sockin g \<notin> r2 \<Longrightarrow> fd_in_range sys (sockin g) \<Longrightarrow> admit sys r2 g = Inr g"
  by (simp add: admit_def FD_in_range)

subsection \<open>One iteration of the program\<close>

lemma iteration_inv:
  assumes "poll_conn sys g = Inr g'" "table_inv g" "syscalls_ok sys"
  shows "table_inv g' \<and> max_connections g' = max_connections g"
  using poll_conn_inv [OF poll_conn_sets_Inr [OF assms(1)] assms(2,3)] .

lemma iteration_distinct:
  assumes "poll_conn sys g = Inr g'" "wf_arrays g" "fds_distinct g" "fresh_fds sys g"
  shows "fds_distinct g'"
  using poll_conn_distinct [OF poll_conn_sets_Inr [OF assms(1)] assms(2,3,4)] .

lemma iteration_fatal:
  assumes "reachable g" "syscalls_ok sys" "fds_bounded sys g" "accepts_bounded sys"
    and "poll_conn sys g = Inl e"
  shows "e \<in> {Err_select1, Err_select_timeout, Err_select2,
              Err_enqueue, Err_outgoing_socket, Err_connect}"
proof -
  have "poll_conn_sets sys g = Inl e"
    using poll_conn_defined [OF reachable_count [OF assms(1)] assms(3,4)] assms(5) by simp
  from poll_conn_fatal [OF reachable_inv [OF assms(1)] assms(2) this] show ?thesis .
qed

section \<open>The claims\<close>

text \<open>
  Claim C1. When \<^verbatim>\<open>bounce\<close> has read \<open>recvd \<ge> 1\<close> bytes and the send transferred
  \<open>sent\<close> of them with \<open>1 \<le> sent < recvd\<close>, the unsent bytes \<open>buf[sent .. recvd)\<close> are
  copied behind the bytes the backlog of that slot and direction already holds: the size
  grows by \<open>recvd - sent\<close>, the position stays, the queued bytes are the old ones
  followed by the remainder in order, and the bytes sent followed by the bytes queued are
  the bytes read. The sockets and the other direction's backlog are untouched. The append
  is stated where it fits the region (\<^verbatim>\<open>add_backlog\<close> exits otherwise), which is the
  only case the dispatch loop produces (\<open>iteration_fatal\<close>).
\<close>

theorem partial_send_appends_remainder:
  assumes "wf_arrays g" "n < nat (max_connections g)"
    and "0 \<le> backlog_pos_of dir g ! n" "0 \<le> backlog_size_of dir g ! n"
    and "1 \<le> sent" "sent < recvd"
    and "backlog_pos_of dir g ! n + backlog_size_of dir g ! n + (recvd - sent) \<le> BACKLOG_SIZE"
  shows "\<exists>g'. bounce src dest n dir recvd buf sent g = Inr g' \<and>
           backlog_size_of dir g' ! n = backlog_size_of dir g ! n + (recvd - sent) \<and>
           backlog_pos_of dir g' ! n = backlog_pos_of dir g ! n \<and>
           queued dir n g' = queued dir n g @ map buf [nat sent ..< nat recvd] \<and>
           map buf [0 ..< nat sent] @ map buf [nat sent ..< nat recvd] = map buf [0 ..< nat recvd] \<and>
           conn_in g' = conn_in g \<and> conn_out g' = conn_out g \<and>
           backlog_size_of (other dir) g' = backlog_size_of (other dir) g \<and>
           backlog_pos_of (other dir) g' = backlog_pos_of (other dir) g \<and>
           backlog_of (other dir) g' = backlog_of (other dir) g"
proof -
  let ?g0 = "g\<lparr>trace := trace g @ [Ev_bounce n dir]\<rparr>"
  let ?pos = "backlog_pos_of dir g ! n" and ?size = "backlog_size_of dir g ! n"
  let ?src = "\<lambda>k. buf (k + nat sent)"
  let ?g' = "set_backlog_size dir ((backlog_size_of dir ?g0)[n := ?size + (recvd - sent)])
              (set_backlog dir
                 ((backlog_of dir ?g0)[n := memcpy (backlog_of dir ?g0 ! n) (nat (?pos + ?size)) ?src
                    (nat (recvd - sent))]) ?g0)"
  have len: "n < length (backlog_size_of dir g)" "n < length (backlog_of dir g)"
    using assms(1,2) by (cases dir; simp add: wf_arrays_def dir_defs)+
  have run: "bounce src dest n dir recvd buf sent g = Inr ?g'"
    using assms(5,6,7) by (cases dir) (simp_all add: bounce_def add_backlog_def Let_def dir_defs)
  have sz: "backlog_size_of dir ?g' ! n = ?size + (recvd - sent)"
    using len by (cases dir) (simp_all add: dir_defs)
  have ps: "backlog_pos_of dir ?g' ! n = ?pos"
    by (cases dir) (simp_all add: dir_defs)
  have rg: "backlog_of dir ?g' ! n =
      memcpy (backlog_of dir g ! n) (nat (?pos + ?size)) ?src (nat (recvd - sent))"
    using len by (cases dir) (simp_all add: dir_defs)
  have shift: "map ?src [0 ..< nat (recvd - sent)] = map buf [nat sent ..< nat recvd]"
  proof -
    have "nat recvd = nat sent + nat (recvd - sent)" using assms(5,6) by simp
    then have "[nat sent ..< nat recvd] = map (\<lambda>k. k + nat sent) [0 ..< nat (recvd - sent)]"
      by (simp add: map_add_upt add.commute)
    then show ?thesis by (simp add: comp_def)
  qed
  have q: "queued dir n ?g' = queued dir n g @ map buf [nat sent ..< nat recvd]"
    unfolding queued_def sz ps rg
    using queued_append [OF assms(3,4), of "recvd - sent" "backlog_of dir g ! n" ?src] assms(6) shift
    by simp
  have whole: "map buf [0 ..< nat sent] @ map buf [nat sent ..< nat recvd] = map buf [0 ..< nat recvd]"
  proof -
    have "[0 ..< nat recvd] = [0 ..< nat sent] @ [nat sent ..< nat recvd]"
      using assms(5,6) by (metis le_add1 less_imp_le nat_mono upt_add_eq_append le_Suc_ex zero_le)
    then show ?thesis by (metis map_append)
  qed
  have rest: "conn_in ?g' = conn_in g \<and> conn_out ?g' = conn_out g \<and>
           backlog_size_of (other dir) ?g' = backlog_size_of (other dir) g \<and>
           backlog_pos_of (other dir) ?g' = backlog_pos_of (other dir) g \<and>
           backlog_of (other dir) ?g' = backlog_of (other dir) g"
    by (cases dir) (simp_all add: dir_defs)
  show ?thesis using run sz ps q whole rest by blast
qed

text \<open>The theorem of C1 on the run of the example.\<close>

theorem partial_send_appends_remainder_witness:
  "wf_arrays demo_open \<and> (0::nat) < nat (max_connections demo_open) \<and>
   0 \<le> backlog_pos_of OUT demo_open ! 0 \<and> 0 \<le> backlog_size_of OUT demo_open ! 0 \<and>
   (1::int) \<le> 40 \<and> (40::int) < 100 \<and>
   backlog_pos_of OUT demo_open ! 0 + backlog_size_of OUT demo_open ! 0 + (100 - 40) \<le> BACKLOG_SIZE \<and>
   (\<exists>g'. bounce 4 5 0 OUT 100 payload 40 demo_open = Inr g' \<and>
      backlog_size_of OUT g' ! 0 = 60 \<and> backlog_pos_of OUT g' ! 0 = 0 \<and>
      queued OUT 0 g' = map payload [40 ..< 100])"
proof -
  have n: "(0::nat) < nat (max_connections demo_open)"
    by (simp add: demo_defs init_globals_def)
  have p: "backlog_pos_of OUT demo_open ! 0 = 0" and s: "backlog_size_of OUT demo_open ! 0 = 0"
    by (simp_all add: demo_defs init_globals_def dir_defs)
  have q: "queued OUT 0 demo_open = []"
    by (simp add: queued_def p s)
  have fits: "backlog_pos_of OUT demo_open ! 0 + backlog_size_of OUT demo_open ! 0 + (100 - 40)
      \<le> BACKLOG_SIZE"
    by (simp add: p s BACKLOG_SIZE_def)
  from partial_send_appends_remainder [OF demo_wf(2) n, of OUT 40 100 4 5 payload] p s fits
  obtain g' where "bounce 4 5 0 OUT 100 payload 40 demo_open = Inr g'"
    "backlog_size_of OUT g' ! 0 = 60" "backlog_pos_of OUT g' ! 0 = 0"
    "queued OUT 0 g' = queued OUT 0 demo_open @ map payload [nat 40 ..< nat 100]"
    by auto
  then show ?thesis using demo_wf(2) n p s fits q by auto
qed

text \<open>
  Claim C2. \<^verbatim>\<open>backlog_pos + backlog_size <= BACKLOG_SIZE\<close> holds for every slot and
  direction at start-up, is kept by \<^verbatim>\<open>kill_connection\<close>, \<^verbatim>\<open>flush_backlog\<close>,
  \<^verbatim>\<open>add_backlog\<close>, \<^verbatim>\<open>bounce\<close> and \<^verbatim>\<open>accept_incoming\<close> from any state, and so holds in
  every state the main loop reaches. A flush whose send returns \<open>sent \<ge> 1\<close> subtracts
  \<open>sent\<close> from the size; the position becomes 0 if the size reached 0 and grows by
  \<open>sent\<close> otherwise; the region is not touched (nothing is moved), nor are the sockets.
  When the send took no more than the backlog held, what stays queued is what was queued
  without its first \<open>sent\<close> bytes.
\<close>

theorem backlog_within_capacity:
  assumes "wf_arrays g" "n < nat (max_connections g)" "backlog_bounded g"
  shows "backlog_bounded (init_globals maxc sock mem_in mem_out) \<and>
         backlog_bounded (kill_connection n g) \<and>
         backlog_bounded (flush_backlog n dir sent g) \<and>
         (\<forall>g'. add_backlog n dir buf bufsize g = Inr g' \<longrightarrow> backlog_bounded g') \<and>
         (\<forall>g'. bounce src dest n dir recvd buf sent g = Inr g' \<longrightarrow> backlog_bounded g') \<and>
         (\<forall>g'. accept_incoming incoming outgoing connected g = Inr g' \<longrightarrow> backlog_bounded g') \<and>
         (\<forall>h. reachable h \<longrightarrow> backlog_bounded h) \<and>
         (1 \<le> sent \<longrightarrow>
            backlog_size_of dir (flush_backlog n dir sent g) ! n = backlog_size_of dir g ! n - sent \<and>
            backlog_pos_of dir (flush_backlog n dir sent g) ! n =
              (if backlog_size_of dir g ! n - sent = 0 then 0 else backlog_pos_of dir g ! n + sent) \<and>
            backlog_of dir (flush_backlog n dir sent g) = backlog_of dir g \<and>
            conn_in (flush_backlog n dir sent g) = conn_in g \<and>
            conn_out (flush_backlog n dir sent g) = conn_out g \<and>
            active_connections (flush_backlog n dir sent g) = active_connections g) \<and>
         (1 \<le> sent \<and> sent \<le> backlog_size_of dir g ! n \<and> 0 \<le> backlog_pos_of dir g ! n \<longrightarrow>
            queued dir n (flush_backlog n dir sent g) = drop (nat sent) (queued dir n g))"
proof (intro conjI allI impI)
  show "queued dir n (flush_backlog n dir sent g) = drop (nat sent) (queued dir n g)"
    if "1 \<le> sent \<and> sent \<le> backlog_size_of dir g ! n \<and> 0 \<le> backlog_pos_of dir g ! n"
    using that flush_queued [OF assms(1,2)] by blast
  show "backlog_bounded (init_globals maxc sock mem_in mem_out)"
    using inv_bounded [OF init_inv] .
  show "backlog_bounded (kill_connection n g)" using kill_bounded [OF assms] .
  show "backlog_bounded (flush_backlog n dir sent g)" using flush_bounded [OF assms] .
  show "backlog_bounded g'" if "add_backlog n dir buf bufsize g = Inr g'" for g'
    using add_backlog_bounded [OF that assms] .
  show "backlog_bounded g'" if "bounce src dest n dir recvd buf sent g = Inr g'" for g'
    using bounce_bounded [OF that assms] .
  show "backlog_bounded g'" if "accept_incoming incoming outgoing connected g = Inr g'" for g'
    using accept_bounded [OF that assms(3)] .
  show "backlog_bounded h" if "reachable h" for h
    using inv_bounded [OF reachable_inv [OF that]] .
qed (use flush_effect [OF assms(1,2)] in simp_all)

text \<open>The theorem of C2 on the run of the example.\<close>

theorem backlog_within_capacity_witness:
  "wf_arrays demo_backlogged \<and> (0::nat) < nat (max_connections demo_backlogged) \<and>
   backlog_bounded demo_backlogged \<and> (1::int) \<le> 60 \<and>
   backlog_size_of OUT demo_backlogged ! 0 = 60 \<and> backlog_pos_of OUT demo_backlogged ! 0 = 0 \<and>
   backlog_bounded (flush_backlog 0 OUT 60 demo_backlogged) \<and>
   backlog_size_of OUT (flush_backlog 0 OUT 60 demo_backlogged) ! 0 = 0 \<and>
   backlog_pos_of OUT (flush_backlog 0 OUT 60 demo_backlogged) ! 0 = 0 \<and>
   backlog_bounded (flush_backlog 0 OUT 25 demo_backlogged) \<and>
   backlog_size_of OUT (flush_backlog 0 OUT 25 demo_backlogged) ! 0 = 35 \<and>
   backlog_pos_of OUT (flush_backlog 0 OUT 25 demo_backlogged) ! 0 = 25 \<and>
   backlog_of OUT (flush_backlog 0 OUT 25 demo_backlogged) = backlog_of OUT demo_backlogged \<and>
   (25::int) \<le> backlog_size_of OUT demo_backlogged ! 0 \<and>
   queued OUT 0 (flush_backlog 0 OUT 25 demo_backlogged) = drop 25 (queued OUT 0 demo_backlogged)"
proof -
  have n: "(0::nat) < nat (max_connections demo_backlogged)"
    by (simp add: demo_defs init_globals_def)
  have b: "backlog_bounded demo_backlogged"
    by (simp add: backlog_bounded_def slot_bounded_def demo_defs init_globals_def BACKLOG_SIZE_def)
  have s: "backlog_size_of OUT demo_backlogged ! 0 = 60" "backlog_pos_of OUT demo_backlogged ! 0 = 0"
    by (simp_all add: demo_defs init_globals_def dir_defs)
  show ?thesis
    using backlog_within_capacity [OF demo_wf(3) n b, of 1 3 zero_mem zero_mem OUT 60 payload 0 4 5 0 4 5 0]
      backlog_within_capacity [OF demo_wf(3) n b, of 1 3 zero_mem zero_mem OUT 25 payload 0 4 5 0 4 5 0]
      demo_wf(3) n b s
    by simp
qed

text \<open>
  Claim C3. A call of \<^verbatim>\<open>poll_conn\<close> returns only if the listening socket and the
  sockets of the occupied slots are below \<^verbatim>\<open>FD_SETSIZE\<close>, the descriptors an
  \<^verbatim>\<open>fd_set\<close> has a bit for. In one call that returns, the calls made are an extension
  \<open>evs\<close> of the trace in which \<^verbatim>\<open>bounce\<close> for a slot and direction never appears
  together with \<^verbatim>\<open>flush_backlog\<close> for the same slot and direction, and appears only
  if that backlog was empty when the iteration began: fresh data is never sent while
  backlogged data of that direction is pending.
\<close>

theorem flush_excludes_relay:
  assumes "wf_arrays g" "poll_conn sys g = Inr g'"
  shows "fds_bounded sys g \<and>
         (\<exists>evs. trace g' = trace g @ evs \<and>
            (\<forall>j d. Ev_bounce j d \<in> set evs \<longrightarrow>
               Ev_flush_backlog j d \<notin> set evs \<and> backlog_size_of d g ! j = 0))"
  using poll_conn_trace [OF poll_conn_sets_Inr [OF assms(2)] assms(1)]
    poll_conn_Inr_bounded [OF assms(2)] by blast

text \<open>The theorem of C3 on the run of the example.\<close>

theorem flush_excludes_relay_witness:
  "wf_arrays demo_backlogged \<and> poll_conn demo_drain demo_backlogged = Inr demo_drained \<and>
   fds_bounded demo_drain demo_backlogged \<and>
   trace demo_drained = trace demo_backlogged @ [Ev_flush_backlog 0 OUT] \<and>
   Ev_bounce 0 OUT \<notin> set [Ev_flush_backlog 0 OUT] \<and>
   backlog_size_of OUT demo_backlogged ! 0 = 60 \<and>
   wf_arrays demo_open \<and> poll_conn demo_partial demo_open = Inr demo_backlogged \<and>
   fds_bounded demo_partial demo_open \<and>
   trace demo_backlogged = trace demo_open @ [Ev_bounce 0 OUT] \<and>
   Ev_flush_backlog 0 OUT \<notin> set [Ev_bounce 0 OUT] \<and>
   backlog_size_of OUT demo_open ! 0 = 0"
proof -
  have t3: "trace demo_drained = trace demo_backlogged @ [Ev_flush_backlog 0 OUT]"
    by (simp add: demo_defs init_globals_def)
  have t2: "trace demo_backlogged = trace demo_open @ [Ev_bounce 0 OUT]"
    by (simp add: demo_defs init_globals_def)
  have s: "backlog_size_of OUT demo_backlogged ! 0 = 60"
    by (simp add: demo_defs init_globals_def dir_defs)
  from flush_excludes_relay [OF demo_wf(2) demo_step2] obtain evs where
    f: "fds_bounded demo_partial demo_open"
    and e: "trace demo_backlogged = trace demo_open @ evs"
    and b: "\<And>j d. Ev_bounce j d \<in> set evs \<Longrightarrow>
              Ev_flush_backlog j d \<notin> set evs \<and> backlog_size_of d demo_open ! j = 0"
    by blast
  from e t2 have "evs = [Ev_bounce 0 OUT]" by simp
  then have z: "Ev_flush_backlog 0 OUT \<notin> set [Ev_bounce 0 OUT] \<and>
      backlog_size_of OUT demo_open ! 0 = 0"
    using b [of 0 OUT] by simp
  from flush_excludes_relay [OF demo_wf(3) demo_step3] obtain evs' where
    f': "fds_bounded demo_drain demo_backlogged"
    and e': "trace demo_drained = trace demo_backlogged @ evs'"
    and b': "\<And>j d. Ev_bounce j d \<in> set evs' \<Longrightarrow> Ev_flush_backlog j d \<notin> set evs'"
    by blast
  from e' t3 have "evs' = [Ev_flush_backlog 0 OUT]" by simp
  then have "Ev_bounce 0 OUT \<notin> set [Ev_flush_backlog 0 OUT]"
    using b' [of 0 OUT] by auto
  then show ?thesis
    using demo_wf(2,3) demo_step2 demo_step3 t2 t3 s z f f' by simp
qed




text \<open>
  Claim C5. Stage 2 gives its sets only if every descriptor it handled is below
  \<^verbatim>\<open>FD_SETSIZE\<close>. With descriptors pairwise different, it puts \<^verbatim>\<open>sockin\<close> into the
  read set exactly when \<^verbatim>\<open>active_connections < max_connections\<close>, so at capacity, with
  \<^verbatim>\<open>sockin\<close> below \<^verbatim>\<open>FD_SETSIZE\<close> for the \<^verbatim>\<open>FD_ISSET\<close> of line 480,
  \<^verbatim>\<open>accept_incoming\<close> is not called. If it is called at capacity and \<^verbatim>\<open>accept\<close>
  succeeds, it closes the accepted socket and leaves the counter and every slot as they
  were. Whenever it changes a slot, the counter was below \<^verbatim>\<open>max_connections\<close> and grows
  by one. In every state the main loop reaches, \<^verbatim>\<open>active_connections\<close> is the number of
  occupied slots. That descriptors are pairwise different is kept by every iteration in
  which \<^verbatim>\<open>accept\<close> and \<^verbatim>\<open>socket\<close> return descriptors not in use (\<open>init_distinct\<close>,
  \<open>iteration_distinct\<close>).
\<close>

theorem admission_respects_capacity:
  "(stage2_interest sys g r1 w1 = Inr (r2, w2, m) \<and> fds_distinct g \<longrightarrow>
      (sockin g \<in> r2 \<longleftrightarrow> active_connections g < max_connections g) \<and>
      (active_connections g < max_connections g \<longrightarrow> fd_in_range sys (sockin g))) \<and>
   (stage2_interest sys g r1 w1 = Inr (r2, w2, m) \<and> fds_distinct g \<and>
      fd_in_range sys (sockin g) \<and> max_connections g \<le> active_connections g \<longrightarrow>
      admit sys (r2 \<inter> select2_readable sys) g = Inr g) \<and>
   (0 \<le> incoming \<and> max_connections g \<le> active_connections g \<longrightarrow>
      (\<exists>g'. accept_incoming incoming outgoing connected g = Inr g' \<and>
           trace g' = trace g @ [Ev_closesocket incoming] \<and>
           active_connections g' = active_connections g \<and>
           max_connections g' = max_connections g \<and> sockin g' = sockin g \<and>
           (\<forall>k. slot_eq g g' k))) \<and>
   (\<forall>g'. accept_incoming incoming outgoing connected g = Inr g' \<and>
         (conn_in g' \<noteq> conn_in g \<or> conn_out g' \<noteq> conn_out g) \<longrightarrow>
         active_connections g < max_connections g \<and>
         active_connections g' = active_connections g + 1) \<and>
   (\<forall>h. reachable h \<longrightarrow>
         active_connections h = int (occupied h) \<and> occupied h \<le> nat (max_connections h))"
proof (intro conjI allI impI)
  show "sockin g \<in> r2 \<longleftrightarrow> active_connections g < max_connections g"
    if "stage2_interest sys g r1 w1 = Inr (r2, w2, m) \<and> fds_distinct g"
    using that sockin_interest stage2_interest_sets_Inr by blast
  show "fd_in_range sys (sockin g)"
    if "stage2_interest sys g r1 w1 = Inr (r2, w2, m) \<and> fds_distinct g"
      and "active_connections g < max_connections g"
    using that stage2_interest_Inr_sockin by blast
  show "admit sys (r2 \<inter> select2_readable sys) g = Inr g"
    if "stage2_interest sys g r1 w1 = Inr (r2, w2, m) \<and> fds_distinct g \<and>
      fd_in_range sys (sockin g) \<and> max_connections g \<le> active_connections g"
  proof -
    from that have "stage2_interest_sets g r1 w1 = Inr (r2, w2, m)"
      using stage2_interest_sets_Inr by blast
    with that have "sockin g \<notin> r2" using sockin_interest [of g r1 w1 r2 w2 m] by simp
    then show ?thesis using that by (simp add: admit_skip)
  qed
  show "\<exists>g'. accept_incoming incoming outgoing connected g = Inr g' \<and>
           trace g' = trace g @ [Ev_closesocket incoming] \<and>
           active_connections g' = active_connections g \<and>
           max_connections g' = max_connections g \<and> sockin g' = sockin g \<and>
           (\<forall>k. slot_eq g g' k)"
    if "0 \<le> incoming \<and> max_connections g \<le> active_connections g"
    using that accept_reject by blast
  show "active_connections g < max_connections g"
    if "accept_incoming incoming outgoing connected g = Inr g' \<and>
         (conn_in g' \<noteq> conn_in g \<or> conn_out g' \<noteq> conn_out g)" for g'
  proof -
    from that have run: "accept_incoming incoming outgoing connected g = Inr g'" by simp
    from run show ?thesis by (cases rule: accept_cases) (use that in simp_all)
  qed
  show "active_connections g' = active_connections g + 1"
    if "accept_incoming incoming outgoing connected g = Inr g' \<and>
         (conn_in g' \<noteq> conn_in g \<or> conn_out g' \<noteq> conn_out g)" for g'
  proof -
    from that have run: "accept_incoming incoming outgoing connected g = Inr g'" by simp
    from run show ?thesis by (cases rule: accept_cases) (use that in simp_all)
  qed
  show "active_connections h = int (occupied h)" if "reachable h" for h
    using reachable_count [OF that] by (simp add: count_inv_def)
  show "occupied h \<le> nat (max_connections h)" if "reachable h" for h
    by (rule occupied_le)
qed

text \<open>The theorem of C5 on the run of the example.\<close>

theorem admission_respects_capacity_witness:
  "stage2_interest demo_accept demo_open {4} {4, 5} = Inr ({4, 5}, {5}, 5) \<and>
   fds_distinct demo_open \<and> fd_in_range demo_accept (sockin demo_open) \<and>
   max_connections demo_open \<le> active_connections demo_open \<and>
   sockin demo_open \<notin> {4, 5} \<and>
   admit demo_accept ({4, 5} \<inter> select2_readable demo_accept) demo_open = Inr demo_open \<and>
   (0::int) \<le> 6 \<and>
   (\<exists>g'. accept_incoming 6 7 0 demo_open = Inr g' \<and>
      trace g' = trace demo_open @ [Ev_closesocket 6] \<and>
      active_connections g' = active_connections demo_open \<and>
      conn_in g' ! 0 = conn_in demo_open ! 0 \<and> conn_out g' ! 0 = conn_out demo_open ! 0) \<and>
   stage2_interest demo_accept demo_start {} {} = Inr ({3}, {}, 3) \<and> fds_distinct demo_start \<and>
   active_connections demo_start < max_connections demo_start \<and>
   sockin demo_start \<in> {3} \<and> fd_in_range demo_accept (sockin demo_start) \<and>
   accept_incoming 4 5 0 demo_start = Inr demo_open \<and>
   conn_in demo_open \<noteq> conn_in demo_start \<and>
   active_connections demo_open = active_connections demo_start + 1 \<and>
   reachable demo_open \<and> active_connections demo_open = int (occupied demo_open)"
proof -
  have full: "max_connections demo_open \<le> active_connections demo_open"
    by (simp add: demo_defs init_globals_def)
  have rng: "fd_in_range demo_accept (sockin demo_open)"
    by (simp add: fd_in_range_def demo_defs init_globals_def)
  have room: "active_connections demo_start < max_connections demo_start"
    by (simp add: demo_defs init_globals_def)
  have acc: "accept_incoming 4 5 0 demo_start = Inr demo_open"
    by (simp add: accept_incoming_def free_slot_def demo_defs init_globals_def Let_def
          INVALID_SOCKET_def)
  have ch: "conn_in demo_open \<noteq> conn_in demo_start"
    by (simp add: demo_defs init_globals_def INVALID_SOCKET_def)
  note T1 = admission_respects_capacity [of demo_accept demo_open "{4}" "{4, 5}" "{4, 5}" "{5}" 5
      6 7 0]
  note T2 = admission_respects_capacity [of demo_accept demo_start "{}" "{}" "{3}" "{}" 3
      4 5 0]
  from T1 demo_stage2(2) demo_fds(2) full rng
  have a: "sockin demo_open \<notin> {4, 5}"
    and b: "admit demo_accept ({4, 5} \<inter> select2_readable demo_accept) demo_open = Inr demo_open"
    by auto
  from T1 full obtain g' where g': "accept_incoming 6 7 0 demo_open = Inr g'"
    "trace g' = trace demo_open @ [Ev_closesocket 6]"
    "active_connections g' = active_connections demo_open" "\<forall>k. slot_eq demo_open g' k"
    by auto
  then have "slot_eq demo_open g' 0" by blast
  then have s: "conn_in g' ! 0 = conn_in demo_open ! 0 \<and> conn_out g' ! 0 = conn_out demo_open ! 0"
    by (simp add: slot_eq_def)
  from T2 demo_stage2(1) demo_fds(1) room
  have c: "sockin demo_start \<in> {3}" "fd_in_range demo_accept (sockin demo_start)" by auto
  from T2 acc ch have d: "active_connections demo_open = active_connections demo_start + 1"
    by blast
  from T1 demo_reachable(2) have e: "active_connections demo_open = int (occupied demo_open)"
    by blast
  show ?thesis
    using demo_stage2(1,2) demo_fds(1,2) full rng room acc ch a b g'(1,2,3) s c d e
      demo_reachable(2)
    by auto
qed

text \<open>
  Claim C6. Stage 2 gives its sets only if the sockets of the occupied slots are below
  \<^verbatim>\<open>FD_SETSIZE\<close>. For an occupied slot, with descriptors pairwise different, the read set of
  stage 2 holds \<^verbatim>\<open>conn_out[i]\<close> exactly when stage 1 found \<^verbatim>\<open>conn_in[i]\<close> writable and
  \<^verbatim>\<open>backlog_in_size[i]\<close> is 0, and holds \<^verbatim>\<open>conn_in[i]\<close> exactly when stage 1 found
  \<^verbatim>\<open>conn_out[i]\<close> writable and \<^verbatim>\<open>backlog_out_size[i]\<close> is 0. Without the
  hypothesis on the descriptors, a socket of another slot with the same number would add
  it too; the hypothesis is kept by every iteration in which \<^verbatim>\<open>accept\<close> and
  \<^verbatim>\<open>socket\<close> return descriptors not in use (\<open>init_distinct\<close>, \<open>iteration_distinct\<close>).
\<close>

theorem read_interest_iff_peer_drainable:
  assumes "stage2_interest sys g r1 w1 = Inr (r2, w2, m)" "fds_distinct g"
    and "i < nat (max_connections g)"
    and "conn_in g ! i \<noteq> INVALID_SOCKET" "conn_out g ! i \<noteq> INVALID_SOCKET"
  shows "fd_in_range sys (conn_in g ! i) \<and> fd_in_range sys (conn_out g ! i) \<and>
         (conn_out g ! i \<in> r2 \<longleftrightarrow> conn_in g ! i \<in> w1 \<and> backlog_in_size g ! i = 0) \<and>
         (conn_in g ! i \<in> r2 \<longleftrightarrow> conn_out g ! i \<in> w1 \<and> backlog_out_size g ! i = 0)"
proof -
  have alive: "\<not> slot_dead g i" using assms(4,5) by (simp add: slot_dead_def)
  note rng = stage2_interest_Inr_bounded [OF assms(1,3) alive]
  note sets = stage2_interest_sets_Inr [OF assms(1)]
  note D = fds_distinctD [OF assms(2)]
  have out: "conn_out g ! i \<in> r2 \<longleftrightarrow> conn_in g ! i \<in> w1 \<and> backlog_in_size g ! i = 0"
  proof
    assume "conn_out g ! i \<in> r2"
    then consider (listen) "conn_out g ! i = sockin g"
      | (slot) j where "j < nat (max_connections g)" "conn_out g ! i \<in> read_interest g w1 j"
      using stage2_interest_read [OF sets] by blast
    then show "conn_in g ! i \<in> w1 \<and> backlog_in_size g ! i = 0"
    proof cases
      case listen
      then show ?thesis using D(3) [OF assms(3) assms(3) alive alive] by simp
    next
      case (slot j)
      then have aj: "\<not> slot_dead g j"
        and c: "(conn_out g ! i = conn_out g ! j \<and> conn_in g ! j \<in> w1 \<and> backlog_in_size g ! j = 0) \<or>
                (conn_out g ! i = conn_in g ! j \<and> conn_out g ! j \<in> w1 \<and> backlog_out_size g ! j = 0)"
        by (simp_all add: read_interest_member)
      have "conn_out g ! i \<noteq> conn_in g ! j"
        using D(1) [OF slot(1) assms(3) aj alive] by simp
      then have "conn_out g ! i = conn_out g ! j" and r: "conn_in g ! j \<in> w1 \<and> backlog_in_size g ! j = 0"
        using c by auto
      then have "i = j" using D(5) [OF assms(3) slot(1) alive aj] by simp
      then show ?thesis using r by simp
    qed
  next
    assume "conn_in g ! i \<in> w1 \<and> backlog_in_size g ! i = 0"
    then have "conn_out g ! i \<in> read_interest g w1 i"
      using alive by (simp add: read_interest_member)
    then show "conn_out g ! i \<in> r2"
      using stage2_interest_read [OF sets] assms(3) by blast
  qed
  have inn: "conn_in g ! i \<in> r2 \<longleftrightarrow> conn_out g ! i \<in> w1 \<and> backlog_out_size g ! i = 0"
  proof
    assume "conn_in g ! i \<in> r2"
    then consider (listen) "conn_in g ! i = sockin g"
      | (slot) j where "j < nat (max_connections g)" "conn_in g ! i \<in> read_interest g w1 j"
      using stage2_interest_read [OF sets] by blast
    then show "conn_out g ! i \<in> w1 \<and> backlog_out_size g ! i = 0"
    proof cases
      case listen
      then show ?thesis using D(2) [OF assms(3) assms(3) alive alive] by simp
    next
      case (slot j)
      then have aj: "\<not> slot_dead g j"
        and c: "(conn_in g ! i = conn_out g ! j \<and> conn_in g ! j \<in> w1 \<and> backlog_in_size g ! j = 0) \<or>
                (conn_in g ! i = conn_in g ! j \<and> conn_out g ! j \<in> w1 \<and> backlog_out_size g ! j = 0)"
        by (simp_all add: read_interest_member)
      have "conn_in g ! i \<noteq> conn_out g ! j"
        using D(1) [OF assms(3) slot(1) alive aj] by simp
      then have "conn_in g ! i = conn_in g ! j" and r: "conn_out g ! j \<in> w1 \<and> backlog_out_size g ! j = 0"
        using c by auto
      then have "i = j" using D(4) [OF assms(3) slot(1) alive aj] by simp
      then show ?thesis using r by simp
    qed
  next
    assume "conn_out g ! i \<in> w1 \<and> backlog_out_size g ! i = 0"
    then have "conn_in g ! i \<in> read_interest g w1 i"
      using alive by (simp add: read_interest_member)
    then show "conn_in g ! i \<in> r2"
      using stage2_interest_read [OF sets] assms(3) by blast
  qed
  show ?thesis using rng out inn by simp
qed

text \<open>The theorem of C6 on the run of the example.\<close>

theorem read_interest_iff_peer_drainable_witness:
  "stage2_interest demo_drain demo_backlogged {4} {4, 5} = Inr ({5}, {5}, 5) \<and>
   fds_distinct demo_backlogged \<and> (0::nat) < nat (max_connections demo_backlogged) \<and>
   fd_in_range demo_drain 4 \<and> fd_in_range demo_drain 5 \<and>
   conn_in demo_backlogged ! 0 = 4 \<and> conn_out demo_backlogged ! 0 = 5 \<and>
   conn_in demo_backlogged ! 0 \<noteq> INVALID_SOCKET \<and>
   conn_out demo_backlogged ! 0 \<noteq> INVALID_SOCKET \<and>
   backlog_in_size demo_backlogged ! 0 = 0 \<and> backlog_out_size demo_backlogged ! 0 = 60 \<and>
   conn_out demo_backlogged ! 0 \<in> {5} \<and> conn_in demo_backlogged ! 0 \<notin> {5}"
proof -
  have n: "(0::nat) < nat (max_connections demo_backlogged)"
    by (simp add: demo_defs init_globals_def)
  have v: "conn_in demo_backlogged ! 0 = 4" "conn_out demo_backlogged ! 0 = 5"
    "backlog_in_size demo_backlogged ! 0 = 0" "backlog_out_size demo_backlogged ! 0 = 60"
    by (simp_all add: demo_defs init_globals_def)
  have i: "conn_in demo_backlogged ! 0 \<noteq> INVALID_SOCKET"
    "conn_out demo_backlogged ! 0 \<noteq> INVALID_SOCKET"
    by (simp_all add: v INVALID_SOCKET_def)
  from read_interest_iff_peer_drainable [OF demo_stage2(3) demo_fds(3) n i]
  have "fd_in_range demo_drain 4 \<and> fd_in_range demo_drain 5 \<and>
      conn_out demo_backlogged ! 0 \<in> {5} \<and> conn_in demo_backlogged ! 0 \<notin> {5}"
    by (simp add: v)
  then show ?thesis using demo_stage2(3) demo_fds(3) n v i by simp
qed

text \<open>
  Claim C7. When the \<^verbatim>\<open>recv\<close> or the \<^verbatim>\<open>send\<close> of \<^verbatim>\<open>bounce\<close>, or the \<^verbatim>\<open>send\<close> of
  \<^verbatim>\<open>flush_backlog\<close>, returns less than 1, slot \<open>n\<close> and only slot \<open>n\<close> is torn down: both
  its sockets are closed and set to \<^verbatim>\<open>INVALID_SOCKET\<close>, its backlog sizes and positions are
  0, \<^verbatim>\<open>active_connections\<close> is one less, and every other slot keeps its sockets, backlog
  contents, sizes and positions.
\<close>

theorem teardown_only_affected_slot:
  assumes "wf_arrays g" "n < nat (max_connections g)"
  shows "(recvd < 1 \<or> sent < 1 \<longrightarrow>
            (\<exists>g'. bounce src dest n dir recvd buf sent g = Inr g' \<and> torn_down n g g')) \<and>
         (sent < 1 \<longrightarrow> torn_down n g (flush_backlog n dir sent g))"
proof (intro conjI impI)
  let ?g0 = "g\<lparr>trace := trace g @ [Ev_bounce n dir]\<rparr>"
  let ?g1 = "g\<lparr>trace := trace g @ [Ev_flush_backlog n dir]\<rparr>"
  have k0: "torn_down n g (kill_connection n ?g0)"
    using kill_torn_down [of ?g0 n] assms by (simp add: torn_down_logged)
  have k1: "torn_down n g (kill_connection n ?g1)"
    using kill_torn_down [of ?g1 n] assms by (simp add: torn_down_logged)
  show "\<exists>g'. bounce src dest n dir recvd buf sent g = Inr g' \<and> torn_down n g g'"
    if "recvd < 1 \<or> sent < 1"
  proof -
    have "bounce src dest n dir recvd buf sent g = Inr (kill_connection n ?g0)"
      using that by (auto simp add: bounce_def Let_def)
    then show ?thesis using k0 by simp
  qed
  show "torn_down n g (flush_backlog n dir sent g)" if "sent < 1"
  proof -
    have "flush_backlog n dir sent g = kill_connection n ?g1"
      using that by (simp add: flush_backlog_def Let_def)
    then show ?thesis using k1 by simp
  qed
qed

text \<open>The theorem of C7 on the run of the example.\<close>

theorem teardown_only_affected_slot_witness:
  "wf_arrays demo_pair \<and> (0::nat) < nat (max_connections demo_pair) \<and>
   (\<exists>g'. bounce 4 5 0 OUT 0 payload 0 demo_pair = Inr g' \<and> torn_down 0 demo_pair g') \<and>
   torn_down 0 demo_pair (flush_backlog 0 OUT 0 demo_pair) \<and>
   conn_in (flush_backlog 0 OUT 0 demo_pair) = [INVALID_SOCKET, 6] \<and>
   conn_out (flush_backlog 0 OUT 0 demo_pair) = [INVALID_SOCKET, 7] \<and>
   backlog_out_size (flush_backlog 0 OUT 0 demo_pair) = [0, 10] \<and>
   active_connections (flush_backlog 0 OUT 0 demo_pair) = 1"
proof -
  have n: "(0::nat) < nat (max_connections demo_pair)"
    by (simp add: demo_pair_def init_globals_def)
  have ev: "conn_in (flush_backlog 0 OUT 0 demo_pair) = [INVALID_SOCKET, 6] \<and>
   conn_out (flush_backlog 0 OUT 0 demo_pair) = [INVALID_SOCKET, 7] \<and>
   backlog_out_size (flush_backlog 0 OUT 0 demo_pair) = [0, 10] \<and>
   active_connections (flush_backlog 0 OUT 0 demo_pair) = 1"
    by (simp add: flush_backlog_def kill_connection_def demo_pair_def init_globals_def Let_def)
  show ?thesis
    using teardown_only_affected_slot [OF demo_wf(4) n, of 0 0 4 5 OUT payload] demo_wf(4) n ev
    by simp
qed

text \<open>
  Claim C8. In every state the main loop reaches, a slot whose two handles are
  \<^verbatim>\<open>INVALID_SOCKET\<close> has backlog size 0 and position 0 in both directions; and the slot
  in which \<^verbatim>\<open>accept_incoming\<close> installs the two handles has, right after, both handles
  set and both backlogs of size 0 and position 0.
\<close>

theorem admitted_slot_backlogs_empty:
  assumes "reachable g"
  shows "(\<forall>i < nat (max_connections g).
            conn_in g ! i = INVALID_SOCKET \<and> conn_out g ! i = INVALID_SOCKET \<longrightarrow>
            backlog_in_size g ! i = 0 \<and> backlog_in_pos g ! i = 0 \<and>
            backlog_out_size g ! i = 0 \<and> backlog_out_pos g ! i = 0) \<and>
         (\<forall>incoming outgoing connected g' i.
            accept_incoming incoming outgoing connected g = Inr g' \<and>
            i < nat (max_connections g) \<and> conn_in g' ! i \<noteq> conn_in g ! i \<longrightarrow>
            conn_in g' ! i = incoming \<and> conn_out g' ! i = outgoing \<and>
            incoming \<noteq> INVALID_SOCKET \<and> outgoing \<noteq> INVALID_SOCKET \<and>
            backlog_in_size g' ! i = 0 \<and> backlog_in_pos g' ! i = 0 \<and>
            backlog_out_size g' ! i = 0 \<and> backlog_out_pos g' ! i = 0)"
proof -
  have inv: "table_inv g" using reachable_inv [OF assms] .
  have empty: "backlog_in_size g ! i = 0 \<and> backlog_in_pos g ! i = 0 \<and>
            backlog_out_size g ! i = 0 \<and> backlog_out_pos g ! i = 0"
    if "i < nat (max_connections g)" "conn_in g ! i = INVALID_SOCKET" for i
    using inv_slot [OF inv that(1)] that(2)
    by (simp add: slot_inv_def backlog_ok_def dir_defs)
  have adm: "conn_in g' ! i = a \<and> conn_out g' ! i = b \<and>
            a \<noteq> INVALID_SOCKET \<and> b \<noteq> INVALID_SOCKET \<and>
            backlog_in_size g' ! i = 0 \<and> backlog_in_pos g' ! i = 0 \<and>
            backlog_out_size g' ! i = 0 \<and> backlog_out_pos g' ! i = 0"
    if run: "accept_incoming a b c g = Inr g'" and i: "i < nat (max_connections g)"
      and ch: "conn_in g' ! i \<noteq> conn_in g ! i" for a b c g' i
  proof -
    let ?g1 = "g\<lparr>active_connections := active_connections g + 1\<rparr>"
    from run ch obtain cur where cur: "free_slot ?g1 = Some cur"
      and g': "g' = ?g1\<lparr>conn_in := (conn_in g)[cur := a], conn_out := (conn_out g)[cur := b]\<rparr>"
      and ab: "0 \<le> a" "0 \<le> b"
      by (auto simp add: accept_incoming_def Let_def split: if_splits option.splits)
    from free_slot_Some [OF cur] have c: "cur < nat (max_connections g)"
      "conn_in g ! cur = INVALID_SOCKET" by simp_all
    have "i = cur" using ch g' by (cases "i = cur") simp_all
    moreover have "cur < length (conn_in g)" "cur < length (conn_out g)"
      using c(1) inv_wf [OF inv] by (simp_all add: wf_arrays_def)
    ultimately show ?thesis using g' ab empty [OF c(1) c(2)]
      by (simp add: INVALID_SOCKET_def)
  qed
  show ?thesis using empty adm by blast
qed

text \<open>The theorem of C8 on the run of the example.\<close>

theorem admitted_slot_backlogs_empty_witness:
  "reachable demo_start \<and>
   accept_incoming 4 5 0 demo_start = Inr demo_open \<and>
   (0::nat) < nat (max_connections demo_start) \<and>
   conn_in demo_open ! 0 \<noteq> conn_in demo_start ! 0 \<and>
   conn_in demo_start ! 0 = INVALID_SOCKET \<and> conn_out demo_start ! 0 = INVALID_SOCKET \<and>
   backlog_in_size demo_start ! 0 = 0 \<and> backlog_out_size demo_start ! 0 = 0 \<and>
   conn_in demo_open ! 0 = 4 \<and> conn_out demo_open ! 0 = 5 \<and>
   backlog_in_size demo_open ! 0 = 0 \<and> backlog_in_pos demo_open ! 0 = 0 \<and>
   backlog_out_size demo_open ! 0 = 0 \<and> backlog_out_pos demo_open ! 0 = 0"
proof -
  have acc: "accept_incoming 4 5 0 demo_start = Inr demo_open"
    by (simp add: accept_incoming_def free_slot_def demo_defs init_globals_def Let_def
          INVALID_SOCKET_def)
  have n: "(0::nat) < nat (max_connections demo_start)"
    by (simp add: demo_defs init_globals_def)
  have ch: "conn_in demo_open ! 0 \<noteq> conn_in demo_start ! 0"
    by (simp add: demo_defs init_globals_def INVALID_SOCKET_def)
  have free: "conn_in demo_start ! 0 = INVALID_SOCKET \<and> conn_out demo_start ! 0 = INVALID_SOCKET"
    by (simp add: demo_defs init_globals_def)
  from admitted_slot_backlogs_empty [OF demo_reachable(1)]
  have "backlog_in_size demo_start ! 0 = 0 \<and> backlog_out_size demo_start ! 0 = 0"
    and "conn_in demo_open ! 0 = 4 \<and> conn_out demo_open ! 0 = 5 \<and>
      backlog_in_size demo_open ! 0 = 0 \<and> backlog_in_pos demo_open ! 0 = 0 \<and>
      backlog_out_size demo_open ! 0 = 0 \<and> backlog_out_pos demo_open ! 0 = 0"
    using acc n ch free by blast+
  then show ?thesis using demo_reachable(1) acc n ch free by simp
qed

text \<open>
  Claim C9. From a state the main loop reaches, with \<^verbatim>\<open>recv\<close> and \<^verbatim>\<open>send\<close> returning
  no more than the length asked for, and with the listening socket, the sockets of the
  occupied slots and the descriptors \<^verbatim>\<open>accept\<close> and \<^verbatim>\<open>socket\<close> return all below
  \<^verbatim>\<open>FD_SETSIZE\<close>, no \<^verbatim>\<open>fd_set\<close> macro is used outside its set and \<^verbatim>\<open>poll_conn\<close>
  never takes the exit
  \<^verbatim>\<open>Backlog for connection %d exceeded %d bytes\<close>: \<^verbatim>\<open>bounce\<close> runs for a slot and
  direction only when that backlog has size 0 and position 0, and it appends fewer bytes
  than \<^verbatim>\<open>BACKLOG_SIZE\<close>, the size of the scratch buffer and of the region.
\<close>

theorem backlog_overflow_unreachable:
  assumes "reachable g" "syscalls_ok sys" "fds_bounded sys g" "accepts_bounded sys"
  shows "poll_conn sys g \<noteq> Inl (Err_backlog n) \<and>
         (\<forall>fd. poll_conn sys g \<noteq> Inl (Undefined_fd fd)) \<and>
         (\<forall>g'. poll_conn sys g = Inr g' \<longrightarrow>
            (\<exists>evs. trace g' = trace g @ evs \<and>
               (\<forall>j d. Ev_bounce j d \<in> set evs \<longrightarrow>
                  backlog_size_of d g ! j = 0 \<and> backlog_pos_of d g ! j = 0)))"
proof (intro conjI allI impI)
  have inv: "table_inv g" using reachable_inv [OF assms(1)] .
  have same: "poll_conn sys g = poll_conn_sets sys g"
    using poll_conn_defined [OF reachable_count [OF assms(1)] assms(3,4)] .
  show "poll_conn sys g \<noteq> Inl (Err_backlog n)"
  proof
    assume "poll_conn sys g = Inl (Err_backlog n)"
    then have "poll_conn_sets sys g = Inl (Err_backlog n)" using same by simp
    from poll_conn_fatal [OF inv assms(2) this] show False by simp
  qed
  show "poll_conn sys g \<noteq> Inl (Undefined_fd fd)" for fd
  proof
    assume "poll_conn sys g = Inl (Undefined_fd fd)"
    then have "poll_conn_sets sys g = Inl (Undefined_fd fd)" using same by simp
    from poll_conn_fatal [OF inv assms(2) this] show False by simp
  qed
  show "\<exists>evs. trace g' = trace g @ evs \<and>
               (\<forall>j d. Ev_bounce j d \<in> set evs \<longrightarrow>
                  backlog_size_of d g ! j = 0 \<and> backlog_pos_of d g ! j = 0)"
    if run: "poll_conn sys g = Inr g'" for g'
  proof -
    from poll_conn_trace [OF poll_conn_sets_Inr [OF run] inv_wf [OF inv]] obtain evs where
      t: "trace g' = trace g @ evs"
      and b: "\<And>j d. Ev_bounce j d \<in> set evs \<Longrightarrow>
                backlog_size_of d g ! j = 0 \<and> j < nat (max_connections g)" by blast
    have "backlog_size_of d g ! j = 0 \<and> backlog_pos_of d g ! j = 0"
      if "Ev_bounce j d \<in> set evs" for j d
    proof -
      from b [OF that] have z: "backlog_size_of d g ! j = 0" and j: "j < nat (max_connections g)"
        by simp_all
      from inv_slot [OF inv j] have "backlog_ok d g j"
        by (cases d) (simp_all add: slot_inv_def)
      then show ?thesis using z by (simp add: backlog_ok_def)
    qed
    then show ?thesis using t by blast
  qed
qed

text \<open>The theorem of C9 on the run of the example.\<close>

theorem backlog_overflow_unreachable_witness:
  "reachable demo_open \<and> syscalls_ok demo_partial \<and>
   fds_bounded demo_partial demo_open \<and> accepts_bounded demo_partial \<and>
   poll_conn demo_partial demo_open \<noteq> Inl (Err_backlog 0) \<and>
   poll_conn demo_partial demo_open = Inr demo_backlogged \<and>
   trace demo_backlogged = trace demo_open @ [Ev_bounce 0 OUT] \<and>
   backlog_size_of OUT demo_open ! 0 = 0 \<and> backlog_pos_of OUT demo_open ! 0 = 0"
proof -
  have t: "trace demo_backlogged = trace demo_open @ [Ev_bounce 0 OUT]"
    by (simp add: demo_defs init_globals_def)
  from backlog_overflow_unreachable [OF demo_reachable(2) demo_syscalls_ok(2) demo_bounded(2)
      demo_accepts_bounded(2), of 0]
  have a: "poll_conn demo_partial demo_open \<noteq> Inl (Err_backlog 0)"
    and "\<exists>evs. trace demo_backlogged = trace demo_open @ evs \<and>
               (\<forall>j d. Ev_bounce j d \<in> set evs \<longrightarrow>
                  backlog_size_of d demo_open ! j = 0 \<and> backlog_pos_of d demo_open ! j = 0)"
    using demo_step2 by simp_all
  then obtain evs where e: "trace demo_backlogged = trace demo_open @ evs"
    and b: "\<And>j d. Ev_bounce j d \<in> set evs \<Longrightarrow>
                  backlog_size_of d demo_open ! j = 0 \<and> backlog_pos_of d demo_open ! j = 0"
    by blast
  from e t have "evs = [Ev_bounce 0 OUT]" by simp
  then have "backlog_size_of OUT demo_open ! 0 = 0 \<and> backlog_pos_of OUT demo_open ! 0 = 0"
    using b [of 0 OUT] by simp
  then show ?thesis
    using a t demo_reachable(2) demo_syscalls_ok(2) demo_bounded(2) demo_accepts_bounded(2)
      demo_step2
    by simp
qed

text \<open>
  Claim C10. The claim is that an accepted local port lies in 1-65535. \<^verbatim>\<open>main\<close> rejects
  a local port only when \<^verbatim>\<open>atoi\<close> gives 0, while it checks \<^verbatim>\<open>-max\<close> against the whole
  range 1-65535 (\<open>parse_args_accepts\<close>). With the arguments \<^verbatim>\<open>65536 10.0.0.1:80\<close> the
  port 65536 is accepted, and the port handed to \<^verbatim>\<open>bind\<close> is port 0, the very value the
  check on \<^verbatim>\<open>localport\<close> refuses.
\<close>

theorem local_port_65536_accepted:
  "parse_args [''portfwd'', ''65536'', ''10.0.0.1:80''] = Relay 65536 ''10.0.0.1'' 80 10 False \<and>
   sin_port 65536 = 0"
  by (simp add: parse_args_def atoi_65536 atoi_80 sin_port_def Let_def)


end

